theory Spec2Isabelle
  imports Main "HOL-Library.Multiset"
begin

section \<open>The 8-puzzle solver: data model\<close>

text \<open>
  A shallow embedding of \<^verbatim>\<open>Project1_NuoXu.py\<close>. Python integers are \<open>int\<close>, a
  puzzle state (a list of lists of integers) is an \<open>int list list\<close>, and the tuples of
  tuples kept in the explored set are the same lists. Every exception the Python can raise
  on such values is a value of \<open>py_error\<close>; a function that may raise returns
  \<open>py_error + 'a\<close>.
\<close>

datatype py_error = IndexError | KeyError | TypeError

type_synonym grid = "int list list"

text \<open>
  \<^verbatim>\<open>class PuzzleNode\<close>: the fields of \<^verbatim>\<open>__init__\<close>. The constructor of the
  class is \<open>PuzzleNode_init\<close>, which computes \<open>f_cost\<close> as the sum of the other two costs.
\<close>

datatype PuzzleNode = Node
  (state: grid)
  (parent: "PuzzleNode option")
  (action: "string option")
  (g_cost: int)
  (h_cost: int)
  (f_cost: int)

definition PuzzleNode_init ::
  "grid \<Rightarrow> PuzzleNode option \<Rightarrow> string option \<Rightarrow> int \<Rightarrow> int \<Rightarrow> PuzzleNode" where
  "PuzzleNode_init st par act g h = Node st par act g h (g + h)"

text \<open>\<^verbatim>\<open>PuzzleNode.__lt__\<close>: first by \<open>f_cost\<close>, ties by \<open>g_cost\<close>.\<close>

definition node_lt :: "PuzzleNode \<Rightarrow> PuzzleNode \<Rightarrow> bool" where
  "node_lt self other =
     (if f_cost self = f_cost other then g_cost self < g_cost other
      else f_cost self < f_cost other)"

text \<open>\<^verbatim>\<open>PuzzleNode.__eq__\<close> against another node: equality of the states.\<close>

definition node_eq :: "PuzzleNode \<Rightarrow> PuzzleNode \<Rightarrow> bool" where
  "node_eq self other = (state self = state other)"

text \<open>
  \<^verbatim>\<open>state[r][c]\<close> for non-negative indices: \<^verbatim>\<open>IndexError\<close> when the row or the
  column does not exist.
\<close>

definition cell :: "grid \<Rightarrow> nat \<Rightarrow> nat \<Rightarrow> py_error + int" where
  "cell st r c =
     (if r < length st then
        (if c < length (st ! r) then Inr (st ! r ! c) else Inl IndexError)
      else Inl IndexError)"

subsection \<open>\<^verbatim>\<open>find_blank\<close>\<close>

text \<open>
  The two nested \<^verbatim>\<open>for\<close> loops over \<^verbatim>\<open>range(len(state))\<close>, with the early return
  at the first zero; \<open>None\<close> when the loops end.
\<close>

fun find_blank_cols :: "grid \<Rightarrow> nat \<Rightarrow> nat list \<Rightarrow> py_error + (nat \<times> nat) option" where
  "find_blank_cols st r [] = Inr None"
| "find_blank_cols st r (c # cs) =
     (case cell st r c of
        Inl e \<Rightarrow> Inl e
      | Inr v \<Rightarrow> if v = 0 then Inr (Some (r, c)) else find_blank_cols st r cs)"

fun find_blank_rows :: "grid \<Rightarrow> nat list \<Rightarrow> py_error + (nat \<times> nat) option" where
  "find_blank_rows st [] = Inr None"
| "find_blank_rows st (r # rs) =
     (case find_blank_cols st r [0..<length st] of
        Inl e \<Rightarrow> Inl e
      | Inr (Some p) \<Rightarrow> Inr (Some p)
      | Inr None \<Rightarrow> find_blank_rows st rs)"

definition find_blank :: "grid \<Rightarrow> py_error + (nat \<times> nat) option" where
  "find_blank st = find_blank_rows st [0..<length st]"

definition state_to_tuple :: "grid \<Rightarrow> grid" where
  "state_to_tuple st = st"

subsection \<open>Heuristic functions\<close>

definition no_heuristic :: "grid \<Rightarrow> grid \<Rightarrow> py_error + int" where
  "no_heuristic st goal_state = Inr 0"

text \<open>
  \<^verbatim>\<open>misplaced_tile_heuristic\<close>: the counter is threaded through both loops. The
  goal's cell is read only when the state's cell is not zero (\<^verbatim>\<open>and\<close> is lazy).
\<close>

fun misplaced_cols :: "grid \<Rightarrow> grid \<Rightarrow> nat \<Rightarrow> nat list \<Rightarrow> int \<Rightarrow> py_error + int" where
  "misplaced_cols st goal_state r [] misplaced_count = Inr misplaced_count"
| "misplaced_cols st goal_state r (c # cs) misplaced_count =
     (case cell st r c of
        Inl e \<Rightarrow> Inl e
      | Inr v \<Rightarrow>
          if v \<noteq> 0 then
            (case cell goal_state r c of
               Inl e \<Rightarrow> Inl e
             | Inr w \<Rightarrow>
                 misplaced_cols st goal_state r cs
                   (if v \<noteq> w then misplaced_count + 1 else misplaced_count))
          else misplaced_cols st goal_state r cs misplaced_count)"

fun misplaced_rows :: "grid \<Rightarrow> grid \<Rightarrow> nat list \<Rightarrow> int \<Rightarrow> py_error + int" where
  "misplaced_rows st goal_state [] misplaced_count = Inr misplaced_count"
| "misplaced_rows st goal_state (r # rs) misplaced_count =
     (case misplaced_cols st goal_state r [0..<length st] misplaced_count of
        Inl e \<Rightarrow> Inl e
      | Inr n \<Rightarrow> misplaced_rows st goal_state rs n)"

definition misplaced_tile_heuristic :: "grid \<Rightarrow> grid \<Rightarrow> py_error + int" where
  "misplaced_tile_heuristic st goal_state = misplaced_rows st goal_state [0..<length st] 0"

text \<open>
  The module-global dictionary \<^verbatim>\<open>goal_pos\<close> is explicit state: a map from a tile to
  its (row, column). \<^verbatim>\<open>precompute_goal_pos\<close> starts from the empty dictionary and
  returns the new value of the global.
\<close>

type_synonym goal_pos = "int \<rightharpoonup> nat \<times> nat"

fun precompute_cols :: "grid \<Rightarrow> nat \<Rightarrow> nat list \<Rightarrow> goal_pos \<Rightarrow> py_error + goal_pos" where
  "precompute_cols goal_state r [] gp = Inr gp"
| "precompute_cols goal_state r (c # cs) gp =
     (case cell goal_state r c of
        Inl e \<Rightarrow> Inl e
      | Inr v \<Rightarrow> precompute_cols goal_state r cs (gp(v \<mapsto> (r, c))))"

fun precompute_rows :: "grid \<Rightarrow> nat list \<Rightarrow> goal_pos \<Rightarrow> py_error + goal_pos" where
  "precompute_rows goal_state [] gp = Inr gp"
| "precompute_rows goal_state (r # rs) gp =
     (case precompute_cols goal_state r [0..<length goal_state] gp of
        Inl e \<Rightarrow> Inl e
      | Inr gp' \<Rightarrow> precompute_rows goal_state rs gp')"

definition precompute_goal_pos :: "grid \<Rightarrow> py_error + goal_pos" where
  "precompute_goal_pos goal_state =
     precompute_rows goal_state [0..<length goal_state] Map.empty"

text \<open>
  \<^verbatim>\<open>manhattan_distance_heuristic\<close> reads the global \<open>gp\<close>; both loops run over
  \<^verbatim>\<open>range(len(goal_state))\<close>. A tile that is not a key of the dictionary raises
  \<^verbatim>\<open>KeyError\<close>.
\<close>

fun manhattan_cols :: "goal_pos \<Rightarrow> grid \<Rightarrow> nat \<Rightarrow> nat list \<Rightarrow> int \<Rightarrow> py_error + int" where
  "manhattan_cols gp st r [] tot = Inr tot"
| "manhattan_cols gp st r (c # cs) tot =
     (case cell st r c of
        Inl e \<Rightarrow> Inl e
      | Inr tile \<Rightarrow>
          if tile \<noteq> 0 then
            (case gp tile of
               None \<Rightarrow> Inl KeyError
             | Some (goal_r, goal_c) \<Rightarrow>
                 manhattan_cols gp st r cs
                   (tot + (\<bar>int r - int goal_r\<bar> + \<bar>int c - int goal_c\<bar>)))
          else manhattan_cols gp st r cs tot)"

fun manhattan_rows :: "goal_pos \<Rightarrow> grid \<Rightarrow> nat \<Rightarrow> nat list \<Rightarrow> int \<Rightarrow> py_error + int" where
  "manhattan_rows gp st n [] tot = Inr tot"
| "manhattan_rows gp st n (r # rs) tot =
     (case manhattan_cols gp st r [0..<n] tot of
        Inl e \<Rightarrow> Inl e
      | Inr t \<Rightarrow> manhattan_rows gp st n rs t)"

definition manhattan_distance_heuristic :: "goal_pos \<Rightarrow> grid \<Rightarrow> grid \<Rightarrow> py_error + int" where
  "manhattan_distance_heuristic gp st goal_state =
     manhattan_rows gp st (length goal_state) [0..<length goal_state] 0"

text \<open>
  The three functions that \<^verbatim>\<open>general_search\<close> and \<^verbatim>\<open>expand\<close> receive as
  \<^verbatim>\<open>heuristic_func\<close>, as a closed enumeration; \<open>heuristic_call\<close> is the call
  \<^verbatim>\<open>heuristic_func(state, goal_state)\<close> under the current value of the global.
\<close>

datatype heuristic_func = NoHeuristic | MisplacedTile | ManhattanDistance

fun heuristic_call :: "goal_pos \<Rightarrow> heuristic_func \<Rightarrow> grid \<Rightarrow> grid \<Rightarrow> py_error + int" where
  "heuristic_call gp NoHeuristic st goal_state = no_heuristic st goal_state"
| "heuristic_call gp MisplacedTile st goal_state = misplaced_tile_heuristic st goal_state"
| "heuristic_call gp ManhattanDistance st goal_state =
     manhattan_distance_heuristic gp st goal_state"

subsection \<open>\<^verbatim>\<open>expand\<close>\<close>

text \<open>
  The swap \<^verbatim>\<open>a[br][bc], a[nr][nc] = a[nr][nc], a[br][bc]\<close> on the deep copy: both
  reads come first, then the two writes in order.
\<close>

definition swap_cells :: "grid \<Rightarrow> nat \<Rightarrow> nat \<Rightarrow> nat \<Rightarrow> nat \<Rightarrow> py_error + grid" where
  "swap_cells st blank_r blank_c new_r new_c =
     (case cell st new_r new_c of
        Inl e \<Rightarrow> Inl e
      | Inr a \<Rightarrow>
          (case cell st blank_r blank_c of
             Inl e \<Rightarrow> Inl e
           | Inr b \<Rightarrow>
               let s1 = st[blank_r := (st ! blank_r)[blank_c := a]];
                   s2 = s1[new_r := (s1 ! new_r)[new_c := b]]
               in Inr s2))"

definition moves :: "(int \<times> int \<times> string) list" where
  "moves = [(-1, 0, ''Up''), (1, 0, ''Down''), (0, -1, ''Left''), (0, 1, ''Right'')]"

fun expand_moves ::
  "goal_pos \<Rightarrow> PuzzleNode \<Rightarrow> grid \<Rightarrow> heuristic_func \<Rightarrow> nat \<Rightarrow> nat \<Rightarrow>
   (int \<times> int \<times> string) list \<Rightarrow> PuzzleNode list \<Rightarrow> py_error + PuzzleNode list" where
  "expand_moves gp node goal_state hf blank_r blank_c [] successors = Inr successors"
| "expand_moves gp node goal_state hf blank_r blank_c ((change_r, change_c, act) # ms) successors =
     (let new_r = int blank_r + change_r; new_c = int blank_c + change_c in
      if 0 \<le> new_r \<and> new_r < int (length (state node)) \<and>
         0 \<le> new_c \<and> new_c < int (length (state node)) then
        (case swap_cells (state node) blank_r blank_c (nat new_r) (nat new_c) of
           Inl e \<Rightarrow> Inl e
         | Inr new_state \<Rightarrow>
             (case heuristic_call gp hf new_state goal_state of
                Inl e \<Rightarrow> Inl e
              | Inr new_h_cost \<Rightarrow>
                  expand_moves gp node goal_state hf blank_r blank_c ms
                    (successors @
                      [PuzzleNode_init new_state (Some node) (Some act)
                         (g_cost node + 1) new_h_cost])))
      else expand_moves gp node goal_state hf blank_r blank_c ms successors)"

text \<open>
  Unpacking the \<open>None\<close> that \<^verbatim>\<open>find_blank\<close> returns for a state without a zero
  raises \<^verbatim>\<open>TypeError\<close>.
\<close>

definition expand :: "goal_pos \<Rightarrow> PuzzleNode \<Rightarrow> grid \<Rightarrow> heuristic_func \<Rightarrow> py_error + PuzzleNode list" where
  "expand gp node goal_state hf =
     (case find_blank (state node) of
        Inl e \<Rightarrow> Inl e
      | Inr None \<Rightarrow> Inl TypeError
      | Inr (Some (blank_r, blank_c)) \<Rightarrow>
          expand_moves gp node goal_state hf blank_r blank_c moves [])"

definition goal_test :: "grid \<Rightarrow> grid \<Rightarrow> bool" where
  "goal_test st goal_state = (st = goal_state)"

subsection \<open>The binary heap of \<^verbatim>\<open>heapq\<close>\<close>

text \<open>
  The frontier is a Python list kept as a binary heap by the standard library's
  \<^verbatim>\<open>heapq\<close>, which compares with \<^verbatim>\<open>__lt__\<close> only. \<open>siftdown\<close> and \<open>siftup\<close> are
  the library's \<^verbatim>\<open>_siftdown\<close> and \<^verbatim>\<open>_siftup\<close>.
\<close>

function siftdown_loop :: "PuzzleNode list \<Rightarrow> nat \<Rightarrow> PuzzleNode \<Rightarrow> nat \<Rightarrow> PuzzleNode list" where
  "siftdown_loop heap startpos newitem pos =
     (if pos > startpos then
        (let parentpos = (pos - 1) div 2; par = heap ! parentpos in
         if node_lt newitem par then siftdown_loop (heap[pos := par]) startpos newitem parentpos
         else heap[pos := newitem])
      else heap[pos := newitem])"
  by pat_completeness auto
termination
  by (relation "measure (\<lambda>(heap, startpos, newitem, pos). pos)") auto

declare siftdown_loop.simps [simp del]

definition siftdown :: "PuzzleNode list \<Rightarrow> nat \<Rightarrow> nat \<Rightarrow> PuzzleNode list" where
  "siftdown heap startpos pos = siftdown_loop heap startpos (heap ! pos) pos"

function siftup_loop :: "PuzzleNode list \<Rightarrow> nat \<Rightarrow> PuzzleNode list \<times> nat" where
  "siftup_loop heap pos =
     (let childpos = 2 * pos + 1 in
      if childpos < length heap then
        (let rightpos = childpos + 1;
             childpos' = (if rightpos < length heap \<and> \<not> node_lt (heap ! childpos) (heap ! rightpos)
                          then rightpos else childpos)
         in siftup_loop (heap[pos := heap ! childpos']) childpos')
      else (heap, pos))"
  by pat_completeness auto
termination
  by (relation "measure (\<lambda>(heap, pos). length heap - pos)") auto

declare siftup_loop.simps [simp del]

definition siftup :: "PuzzleNode list \<Rightarrow> nat \<Rightarrow> PuzzleNode list" where
  "siftup heap pos =
     (let newitem = heap ! pos in
      case siftup_loop heap pos of
        (heap', pos') \<Rightarrow> siftdown (heap'[pos' := newitem]) pos pos')"

definition heappush :: "PuzzleNode list \<Rightarrow> PuzzleNode \<Rightarrow> PuzzleNode list" where
  "heappush heap item = siftdown (heap @ [item]) 0 (length heap)"

definition heappop :: "PuzzleNode list \<Rightarrow> py_error + (PuzzleNode \<times> PuzzleNode list)" where
  "heappop heap =
     (if heap = [] then Inl IndexError
      else
        (let lastelt = last heap; heap' = butlast heap in
         if heap' \<noteq> [] then Inr (heap' ! 0, siftup (heap'[0 := lastelt]) 0)
         else Inr (lastelt, heap')))"

definition heapify :: "PuzzleNode list \<Rightarrow> PuzzleNode list" where
  "heapify x = fold (\<lambda>i heap. siftup heap i) (rev [0..<length x div 2]) x"

subsection \<open>\<^verbatim>\<open>general_search\<close>\<close>

text \<open>
  The local variables of the search loop. The set \<open>explored\<close> holds the states as
  \<^verbatim>\<open>state_to_tuple\<close> returns them.
\<close>

record search_state =
  frontier :: "PuzzleNode list"
  explored :: "grid set"
  expanded_count :: int
  max_queue_size :: int

text \<open>
  One pass through the body of \<^verbatim>\<open>while frontier:\<close>: it returns from the function,
  goes round again with new locals, or raises.
\<close>

datatype step_result =
    Return "PuzzleNode option \<times> int \<times> int"
  | Continue search_state
  | Raise py_error

fun push_successors :: "PuzzleNode list \<Rightarrow> grid set \<Rightarrow> PuzzleNode list \<Rightarrow> PuzzleNode list" where
  "push_successors fr ex [] = fr"
| "push_successors fr ex (child_node # rest) =
     (if state_to_tuple (state child_node) \<notin> ex
      then push_successors (heappush fr child_node) ex rest
      else push_successors fr ex rest)"

definition search_iteration ::
  "goal_pos \<Rightarrow> grid \<Rightarrow> heuristic_func \<Rightarrow> search_state \<Rightarrow> step_result" where
  "search_iteration gp goal_state hf s =
     (let mq = max (max_queue_size s) (int (length (frontier s))) in
      case heappop (frontier s) of
        Inl e \<Rightarrow> Raise e
      | Inr (current_node, fr) \<Rightarrow>
          if goal_test (state current_node) goal_state then
            Return (Some current_node, expanded_count s, mq)
          else
            (let current_state_tuple = state_to_tuple (state current_node) in
             if current_state_tuple \<in> explored s then
               Continue \<lparr>frontier = fr, explored = explored s,
                         expanded_count = expanded_count s, max_queue_size = mq\<rparr>
             else
               (let ex = insert current_state_tuple (explored s);
                    ec = expanded_count s + 1 in
                case expand gp current_node goal_state hf of
                  Inl e \<Rightarrow> Raise e
                | Inr successors \<Rightarrow>
                    Continue \<lparr>frontier = push_successors fr ex successors, explored = ex,
                              expanded_count = ec, max_queue_size = mq\<rparr>)))"

text \<open>
  The \<^verbatim>\<open>while\<close> loop. Nothing in the code bounds the number of passes, so the loop
  is a partial function: \<open>None\<close> is a run that never ends.
\<close>

partial_function (option) search_loop ::
  "goal_pos \<Rightarrow> grid \<Rightarrow> heuristic_func \<Rightarrow> search_state \<Rightarrow>
   (py_error + PuzzleNode option \<times> int \<times> int) option" where
  "search_loop gp goal_state hf s =
     (if frontier s = [] then Some (Inr (None, expanded_count s, max_queue_size s))
      else
        (case search_iteration gp goal_state hf s of
           Return r \<Rightarrow> Some (Inr r)
         | Raise e \<Rightarrow> Some (Inl e)
         | Continue s' \<Rightarrow> search_loop gp goal_state hf s'))"

declare search_loop.simps [code]

text \<open>
  The value of the global \<^verbatim>\<open>goal_pos\<close> during a run: recomputed from the goal for
  the Manhattan heuristic, left as it was (\<open>gp0\<close>) for the other two.
\<close>

definition search_goal_pos :: "goal_pos \<Rightarrow> grid \<Rightarrow> heuristic_func \<Rightarrow> py_error + goal_pos" where
  "search_goal_pos gp0 goal_state hf =
     (if hf = ManhattanDistance then precompute_goal_pos goal_state else Inr gp0)"

definition initial_search_state :: "grid \<Rightarrow> int \<Rightarrow> search_state" where
  "initial_search_state initial_state initial_h =
     \<lparr>frontier = heapify [PuzzleNode_init initial_state None None 0 initial_h],
      explored = {}, expanded_count = 0, max_queue_size = 1\<rparr>"

definition general_search ::
  "goal_pos \<Rightarrow> grid \<Rightarrow> grid \<Rightarrow> heuristic_func \<Rightarrow>
   (py_error + PuzzleNode option \<times> int \<times> int) option" where
  "general_search gp0 initial_state goal_state hf =
     (case search_goal_pos gp0 goal_state hf of
        Inl e \<Rightarrow> Some (Inl e)
      | Inr gp \<Rightarrow>
          (case heuristic_call gp hf initial_state goal_state of
             Inl e \<Rightarrow> Some (Inl e)
           | Inr initial_h \<Rightarrow>
               search_loop gp goal_state hf (initial_search_state initial_state initial_h)))"

subsection \<open>\<^verbatim>\<open>reconstruct_path\<close>\<close>

text \<open>
  The loop appends the states from the goal node up to the root; the result is the
  reversed list. The parent chain of a node is finite, so the loop is structural.
\<close>

fun path_up :: "PuzzleNode \<Rightarrow> grid list" where
  "path_up (Node st par act g h f) =
     st # (case par of None \<Rightarrow> [] | Some p \<Rightarrow> path_up p)"

definition reconstruct_path :: "PuzzleNode \<Rightarrow> grid list" where
  "reconstruct_path goal_node = rev (path_up goal_node)"

subsection \<open>The module's global as state\<close>

text \<open>
  The same functions with the module's global threaded through every call. The record
  holds the dictionary \<^verbatim>\<open>goal_pos\<close> and a ghost counter, which the source does not
  have, of the calls of \<^verbatim>\<open>precompute_goal_pos\<close> made so far. A function takes the
  globals and returns them with its value; an exception ends the run, and the globals
  are not looked at after it.
\<close>

record module_state =
  goal_pos_var :: goal_pos
  precompute_calls :: nat

text \<open>
  \<^verbatim>\<open>precompute_goal_pos\<close> assigns a fresh dictionary to the global and fills it; this is
  the only assignment to \<^verbatim>\<open>goal_pos\<close> in the module.
\<close>

definition precompute_goal_pos_st :: "grid \<Rightarrow> module_state \<Rightarrow> py_error + module_state" where
  "precompute_goal_pos_st goal_state g =
     (case precompute_rows goal_state [0..<length goal_state] Map.empty of
        Inl e \<Rightarrow> Inl e
      | Inr gp \<Rightarrow> Inr (g\<lparr>goal_pos_var := gp, precompute_calls := precompute_calls g + 1\<rparr>))"

text \<open>
  The call \<^verbatim>\<open>heuristic_func(state, goal_state)\<close>: \<^verbatim>\<open>manhattan_distance_heuristic\<close> reads
  the global, the other two do not use it, and none of the three writes it or calls
  \<^verbatim>\<open>precompute_goal_pos\<close>.
\<close>

fun heuristic_call_st ::
  "heuristic_func \<Rightarrow> grid \<Rightarrow> grid \<Rightarrow> module_state \<Rightarrow> py_error + int \<times> module_state" where
  "heuristic_call_st NoHeuristic st goal_state g =
     (case no_heuristic st goal_state of Inl e \<Rightarrow> Inl e | Inr h \<Rightarrow> Inr (h, g))"
| "heuristic_call_st MisplacedTile st goal_state g =
     (case misplaced_tile_heuristic st goal_state of Inl e \<Rightarrow> Inl e | Inr h \<Rightarrow> Inr (h, g))"
| "heuristic_call_st ManhattanDistance st goal_state g =
     (case manhattan_distance_heuristic (goal_pos_var g) st goal_state of
        Inl e \<Rightarrow> Inl e
      | Inr h \<Rightarrow> Inr (h, g))"

fun expand_moves_st ::
  "PuzzleNode \<Rightarrow> grid \<Rightarrow> heuristic_func \<Rightarrow> nat \<Rightarrow> nat \<Rightarrow>
   (int \<times> int \<times> string) list \<Rightarrow> PuzzleNode list \<Rightarrow> module_state \<Rightarrow>
   py_error + PuzzleNode list \<times> module_state" where
  "expand_moves_st node goal_state hf blank_r blank_c [] successors g = Inr (successors, g)"
| "expand_moves_st node goal_state hf blank_r blank_c ((change_r, change_c, act) # ms) successors g =
     (let new_r = int blank_r + change_r; new_c = int blank_c + change_c in
      if 0 \<le> new_r \<and> new_r < int (length (state node)) \<and>
         0 \<le> new_c \<and> new_c < int (length (state node)) then
        (case swap_cells (state node) blank_r blank_c (nat new_r) (nat new_c) of
           Inl e \<Rightarrow> Inl e
         | Inr new_state \<Rightarrow>
             (case heuristic_call_st hf new_state goal_state g of
                Inl e \<Rightarrow> Inl e
              | Inr (new_h_cost, g') \<Rightarrow>
                  expand_moves_st node goal_state hf blank_r blank_c ms
                    (successors @
                      [PuzzleNode_init new_state (Some node) (Some act)
                         (g_cost node + 1) new_h_cost]) g'))
      else expand_moves_st node goal_state hf blank_r blank_c ms successors g)"

definition expand_st ::
  "PuzzleNode \<Rightarrow> grid \<Rightarrow> heuristic_func \<Rightarrow> module_state \<Rightarrow>
   py_error + PuzzleNode list \<times> module_state" where
  "expand_st node goal_state hf g =
     (case find_blank (state node) of
        Inl e \<Rightarrow> Inl e
      | Inr None \<Rightarrow> Inl TypeError
      | Inr (Some (blank_r, blank_c)) \<Rightarrow>
          expand_moves_st node goal_state hf blank_r blank_c moves [] g)"

datatype step_result_st =
    Return_st "PuzzleNode option \<times> int \<times> int" module_state
  | Continue_st search_state module_state
  | Raise_st py_error

definition search_iteration_st ::
  "grid \<Rightarrow> heuristic_func \<Rightarrow> search_state \<Rightarrow> module_state \<Rightarrow> step_result_st" where
  "search_iteration_st goal_state hf s g =
     (let mq = max (max_queue_size s) (int (length (frontier s))) in
      case heappop (frontier s) of
        Inl e \<Rightarrow> Raise_st e
      | Inr (current_node, fr) \<Rightarrow>
          if goal_test (state current_node) goal_state then
            Return_st (Some current_node, expanded_count s, mq) g
          else
            (let current_state_tuple = state_to_tuple (state current_node) in
             if current_state_tuple \<in> explored s then
               Continue_st \<lparr>frontier = fr, explored = explored s,
                            expanded_count = expanded_count s, max_queue_size = mq\<rparr> g
             else
               (let ex = insert current_state_tuple (explored s);
                    ec = expanded_count s + 1 in
                case expand_st current_node goal_state hf g of
                  Inl e \<Rightarrow> Raise_st e
                | Inr (successors, g') \<Rightarrow>
                    Continue_st \<lparr>frontier = push_successors fr ex successors, explored = ex,
                                 expanded_count = ec, max_queue_size = mq\<rparr> g')))"

partial_function (option) search_loop_st ::
  "grid \<Rightarrow> heuristic_func \<Rightarrow> search_state \<Rightarrow> module_state \<Rightarrow>
   (py_error + (PuzzleNode option \<times> int \<times> int) \<times> module_state) option" where
  "search_loop_st goal_state hf s g =
     (if frontier s = [] then Some (Inr ((None, expanded_count s, max_queue_size s), g))
      else
        (case search_iteration_st goal_state hf s g of
           Return_st r g' \<Rightarrow> Some (Inr (r, g'))
         | Raise_st e \<Rightarrow> Some (Inl e)
         | Continue_st s' g' \<Rightarrow> search_loop_st goal_state hf s' g'))"

declare search_loop_st.simps [code]

text \<open>
  \<^verbatim>\<open>general_search\<close>: the call of \<^verbatim>\<open>precompute_goal_pos\<close> under the test on
  \<^verbatim>\<open>heuristic_func\<close>, the heuristic of the root, then the loop.
\<close>

definition general_search_st ::
  "grid \<Rightarrow> grid \<Rightarrow> heuristic_func \<Rightarrow> module_state \<Rightarrow>
   (py_error + (PuzzleNode option \<times> int \<times> int) \<times> module_state) option" where
  "general_search_st initial_state goal_state hf g =
     (case (if hf = ManhattanDistance then precompute_goal_pos_st goal_state g else Inr g) of
        Inl e \<Rightarrow> Some (Inl e)
      | Inr g1 \<Rightarrow>
          (case heuristic_call_st hf initial_state goal_state g1 of
             Inl e \<Rightarrow> Some (Inl e)
           | Inr (initial_h, g2) \<Rightarrow>
               search_loop_st goal_state hf (initial_search_state initial_state initial_h) g2))"

section \<open>Specification notions\<close>

text \<open>
  A Configuration of the specification: an \<open>n\<close> by \<open>n\<close> grid that holds each value of
  \<open>0..n\<^sup>2-1\<close> exactly once. The test on the sorted cells is the one
  \<^verbatim>\<open>get_user_puzzle\<close> applies to its input.
\<close>

definition square :: "nat \<Rightarrow> grid \<Rightarrow> bool" where
  "square n st = (length st = n \<and> (\<forall>row\<in>set st. length row = n))"

definition is_configuration :: "nat \<Rightarrow> grid \<Rightarrow> bool" where
  "is_configuration n st = (square n st \<and> sort (concat st) = map int [0..<n * n])"

text \<open>
  The heuristics as sums over the cells: each cell \<open>(r, c)\<close> holding \<open>v\<close> contributes
  \<open>\<phi> r c v\<close>.
\<close>

definition grid_sum :: "(nat \<Rightarrow> nat \<Rightarrow> int \<Rightarrow> int) \<Rightarrow> nat \<Rightarrow> grid \<Rightarrow> int" where
  "grid_sum \<phi> n st = (\<Sum>r\<leftarrow>[0..<n]. \<Sum>c\<leftarrow>[0..<n]. \<phi> r c (st ! r ! c))"

definition misplaced_at :: "grid \<Rightarrow> nat \<Rightarrow> nat \<Rightarrow> int \<Rightarrow> int" where
  "misplaced_at goal_state r c v = (if v \<noteq> 0 \<and> v \<noteq> goal_state ! r ! c then 1 else 0)"

definition manhattan_at :: "goal_pos \<Rightarrow> nat \<Rightarrow> nat \<Rightarrow> int \<Rightarrow> int" where
  "manhattan_at gp r c v =
     (if v = 0 then 0
      else (case gp v of
              None \<Rightarrow> 0
            | Some (goal_r, goal_c) \<Rightarrow> \<bar>int r - int goal_r\<bar> + \<bar>int c - int goal_c\<bar>))"

text \<open>Every entry of the dictionary names a cell of the goal that holds its key.\<close>

definition points_into :: "grid \<Rightarrow> goal_pos \<Rightarrow> bool" where
  "points_into goal_state gp =
     (\<forall>v r c. gp v = Some (r, c) \<longrightarrow>
        r < length goal_state \<and> c < length goal_state \<and> goal_state ! r ! c = v)"

text \<open>
  The grid \<open>st\<close> with the contents of the cells \<open>p\<close> and \<open>q\<close> exchanged, cell by cell.
\<close>

definition swapped :: "grid \<Rightarrow> nat \<times> nat \<Rightarrow> nat \<times> nat \<Rightarrow> grid" where
  "swapped st p q =
     map (\<lambda>r. map (\<lambda>c. if (r, c) = p then st ! fst q ! snd q
                         else if (r, c) = q then st ! fst p ! snd p
                         else st ! r ! c)
                [0..<length (st ! r)])
         [0..<length st]"

text \<open>
  The four directions of the specification and the cell the blank moves to; \<open>in_grid\<close>
  is "within grid bounds".
\<close>

definition direction_delta :: "string \<Rightarrow> int \<times> int" where
  "direction_delta a =
     (if a = ''Up'' then (-1, 0) else if a = ''Down'' then (1, 0)
      else if a = ''Left'' then (0, -1) else (0, 1))"

definition blank_target :: "nat \<Rightarrow> nat \<Rightarrow> string \<Rightarrow> int \<times> int" where
  "blank_target br bc a =
     (int br + fst (direction_delta a), int bc + snd (direction_delta a))"

definition in_grid :: "nat \<Rightarrow> int \<times> int \<Rightarrow> bool" where
  "in_grid n p = (0 \<le> fst p \<and> fst p < int n \<and> 0 \<le> snd p \<and> snd p < int n)"

text \<open>The successor that \<^verbatim>\<open>expand\<close> builds for one entry of \<^verbatim>\<open>moves\<close>.\<close>

definition child_node ::
  "goal_pos \<Rightarrow> heuristic_func \<Rightarrow> grid \<Rightarrow> PuzzleNode \<Rightarrow> nat \<Rightarrow> nat \<Rightarrow>
   int \<times> int \<times> string \<Rightarrow> PuzzleNode" where
  "child_node gp hf goal_state node br bc m =
     (let new_state = swapped (state node) (br, bc)
            (nat (int br + fst m), nat (int bc + fst (snd m)))
      in PuzzleNode_init new_state (Some node) (Some (snd (snd m))) (g_cost node + 1)
           (projr (heuristic_call gp hf new_state goal_state)))"

definition move_in_bounds :: "nat \<Rightarrow> nat \<Rightarrow> nat \<Rightarrow> int \<times> int \<times> string \<Rightarrow> bool" where
  "move_in_bounds n br bc m = in_grid n (int br + fst m, int bc + fst (snd m))"

text \<open>The value of each heuristic on an \<open>n\<close> by \<open>n\<close> grid, as a sum over the cells.\<close>

definition heuristic_value :: "goal_pos \<Rightarrow> heuristic_func \<Rightarrow> grid \<Rightarrow> nat \<Rightarrow> grid \<Rightarrow> int" where
  "heuristic_value gp hf goal_state n st =
     (case hf of
        NoHeuristic \<Rightarrow> 0
      | MisplacedTile \<Rightarrow> grid_sum (misplaced_at goal_state) n st
      | ManhattanDistance \<Rightarrow> grid_sum (manhattan_at gp) n st)"

text \<open>
  The order of the frontier: \<open>node_le a b\<close> is "\<open>b\<close> is not less than \<open>a\<close>" under
  \<^verbatim>\<open>__lt__\<close>. \<open>heap_ok\<close> is the invariant of \<^verbatim>\<open>heapq\<close>: no element is less than
  its parent, the parent of index \<open>i\<close> being \<open>(i - 1) div 2\<close>.
\<close>

definition node_le :: "PuzzleNode \<Rightarrow> PuzzleNode \<Rightarrow> bool" where
  "node_le a b = (\<not> node_lt b a)"

definition heap_ok :: "PuzzleNode list \<Rightarrow> bool" where
  "heap_ok xs = (\<forall>i<length xs. 0 < i \<longrightarrow> node_le (xs ! ((i - 1) div 2)) (xs ! i))"

text \<open>
  The locals of \<^verbatim>\<open>general_search\<close> at the head of the loop after \<open>k\<close> complete
  passes, when the loop gets that far: \<open>None\<close> when it has left before (frontier empty,
  a return or an exception).
\<close>

fun search_run ::
  "nat \<Rightarrow> goal_pos \<Rightarrow> grid \<Rightarrow> heuristic_func \<Rightarrow> search_state \<Rightarrow> search_state option" where
  "search_run 0 gp goal_state hf s = Some s"
| "search_run (Suc k) gp goal_state hf s =
     (if frontier s = [] then None
      else (case search_iteration gp goal_state hf s of
              Continue s' \<Rightarrow> search_run k gp goal_state hf s'
            | Return r \<Rightarrow> None
            | Raise e \<Rightarrow> None))"

text \<open>
  One move of the puzzle: \<open>t\<close> is \<open>s\<close> with a blank cell and a cell next to it (in the
  same row or the same column) exchanged. A move sequence is a list of grids in which each
  grid is one move from the one before.
\<close>

definition adjacent_swap :: "grid \<Rightarrow> grid \<Rightarrow> bool" where
  "adjacent_swap s t =
     (\<exists>br\<in>{0..<length s}. \<exists>bc\<in>{0..<length s}. \<exists>nr\<in>{0..<length s}. \<exists>nc\<in>{0..<length s}.
        bc < length (s ! br) \<and> nc < length (s ! nr) \<and> s ! br ! bc = 0 \<and>
        ((br = nr \<and> (bc = Suc nc \<or> nc = Suc bc)) \<or> (bc = nc \<and> (br = Suc nr \<or> nr = Suc br))) \<and>
        t = swapped s (br, bc) (nr, nc))"

fun is_move_sequence :: "grid list \<Rightarrow> bool" where
  "is_move_sequence [] = True"
| "is_move_sequence [s] = True"
| "is_move_sequence (s # t # rest) = (adjacent_swap s t \<and> is_move_sequence (t # rest))"

text \<open>
  A solution path from \<open>init\<close> to \<open>goal_state\<close>: a move sequence that starts with the one
  and ends with the other; it makes \<open>length p - 1\<close> moves.
\<close>

definition solution_path :: "grid \<Rightarrow> grid \<Rightarrow> grid list \<Rightarrow> bool" where
  "solution_path init goal_state p =
     (p \<noteq> [] \<and> hd p = init \<and> last p = goal_state \<and> is_move_sequence p)"

text \<open>
  How the loop of \<^verbatim>\<open>general_search\<close> is left from the locals \<open>s\<close> with the result
  \<open>r\<close>: by the empty frontier, by the \<^verbatim>\<open>return\<close> in the goal test, or by an exception.
\<close>

definition loop_exit ::
  "goal_pos \<Rightarrow> grid \<Rightarrow> heuristic_func \<Rightarrow> search_state \<Rightarrow>
   (py_error + PuzzleNode option \<times> int \<times> int) \<Rightarrow> bool" where
  "loop_exit gp goal_state hf s r =
     (if frontier s = [] then r = Inr (None, expanded_count s, max_queue_size s)
      else (case search_iteration gp goal_state hf s of
              Return x \<Rightarrow> r = Inr x
            | Raise e \<Rightarrow> r = Inl e
            | Continue s' \<Rightarrow> False))"

text \<open>
  The parent chain of a node is a record of moves from \<open>init\<close> to the node's state, as
  long as its depth.
\<close>

definition path_ok :: "grid \<Rightarrow> PuzzleNode \<Rightarrow> bool" where
  "path_ok init node =
     (solution_path init (state node) (reconstruct_path node) \<and>
      int (length (reconstruct_path node)) = g_cost node + 1)"

text \<open>
  \<open>reach init k s\<close>: some sequence of exactly \<open>k\<close> moves leads from \<open>init\<close> to \<open>s\<close>.
\<close>

definition reach :: "grid \<Rightarrow> nat \<Rightarrow> grid \<Rightarrow> bool" where
  "reach init k s = (\<exists>p. solution_path init s p \<and> length p = Suc k)"

text \<open>
  The invariant of the search loop for Configurations of size \<open>n\<close>: the frontier is a
  heap; each frontier node holds a Configuration, its parent chain is a path from \<open>init\<close>
  of its depth, and its costs are those of its state; the explored states are
  Configurations other than the goal; the initial state is explored or waits in the
  frontier at depth 0; and every neighbour of an explored state is explored or waits in
  the frontier at a depth no more than one above any depth at which the explored state
  can be reached.
\<close>

definition astar_inv ::
  "nat \<Rightarrow> goal_pos \<Rightarrow> heuristic_func \<Rightarrow> grid \<Rightarrow> grid \<Rightarrow> search_state \<Rightarrow> bool" where
  "astar_inv n gp hf goal_state init s =
     (heap_ok (frontier s) \<and>
      (\<forall>m\<in>set (frontier s).
         is_configuration n (state m) \<and> path_ok init m \<and>
         h_cost m = heuristic_value gp hf goal_state n (state m) \<and>
         f_cost m = g_cost m + h_cost m) \<and>
      (\<forall>st\<in>explored s. is_configuration n st \<and> st \<noteq> goal_state) \<and>
      (init \<in> explored s \<or> (\<exists>m\<in>set (frontier s). state m = init \<and> g_cost m = 0)) \<and>
      (\<forall>u\<in>explored s. \<forall>t. adjacent_swap u t \<longrightarrow>
         t \<in> explored s \<or>
         (\<exists>m\<in>set (frontier s). state m = t \<and> (\<forall>k. reach init k u \<longrightarrow> g_cost m \<le> int k + 1))))"

text \<open>
  \<open>same_cells n init st\<close>: \<open>st\<close> is an \<open>n\<close> by \<open>n\<close> grid with the cell values of \<open>init\<close>,
  each as often as in \<open>init\<close>. No condition on the values: they may repeat or be missing.
\<close>

definition same_cells :: "nat \<Rightarrow> grid \<Rightarrow> grid \<Rightarrow> bool" where
  "same_cells n init st = (square n st \<and> mset (concat st) = mset (concat init))"

section \<open>Properties\<close>

subsection \<open>Grids\<close>

lemma cell_square: "square n st \<Longrightarrow> r < n \<Longrightarrow> c < n \<Longrightarrow> cell st r c = Inr (st ! r ! c)"
  by (auto simp: square_def cell_def)

lemma cell_Inr_iff: "cell st r c = Inr v \<longleftrightarrow> r < length st \<and> c < length (st ! r) \<and> v = st ! r ! c"
  by (auto simp: cell_def)

lemma find_blank_cols_Some:
  "find_blank_cols st r cs = Inr (Some (br, bc)) \<Longrightarrow>
     br = r \<and> bc \<in> set cs \<and> r < length st \<and> bc < length (st ! r) \<and> st ! r ! bc = 0"
  by (induction cs) (auto simp: cell_Inr_iff split: sum.splits if_splits)

lemma find_blank_rows_Some:
  "find_blank_rows st rs = Inr (Some (br, bc)) \<Longrightarrow>
     br \<in> set rs \<and> bc < length st \<and> br < length st \<and> bc < length (st ! br) \<and> st ! br ! bc = 0"
  by (induction rs) (auto dest!: find_blank_cols_Some split: sum.splits option.splits)

lemma find_blank_Some:
  "find_blank st = Inr (Some (br, bc)) \<Longrightarrow>
     br < length st \<and> bc < length st \<and> bc < length (st ! br) \<and> st ! br ! bc = 0"
  unfolding find_blank_def by (drule find_blank_rows_Some) auto

lemma find_blank_cols_square:
  "square n st \<Longrightarrow> r < n \<Longrightarrow> \<forall>c\<in>set cs. c < n \<Longrightarrow>
   find_blank_cols st r cs =
     Inr (case filter (\<lambda>c. st ! r ! c = 0) cs of [] \<Rightarrow> None | c # _ \<Rightarrow> Some (r, c))"
  by (induction cs) (auto simp: cell_square)

lemma find_blank_rows_square:
  "square n st \<Longrightarrow> \<forall>r\<in>set rs. r < n \<Longrightarrow>
   \<exists>res. find_blank_rows st rs = Inr res \<and>
     (res = None \<longleftrightarrow> (\<forall>r\<in>set rs. \<forall>c<n. st ! r ! c \<noteq> 0))"
proof (induction rs)
  case Nil
  then show ?case by simp
next
  case (Cons r rs)
  have len: "length st = n" using Cons.prems(1) by (simp add: square_def)
  have fc: "find_blank_cols st r [0..<n] =
     Inr (case filter (\<lambda>c. st ! r ! c = 0) [0..<n] of [] \<Rightarrow> None | c # _ \<Rightarrow> Some (r, c))"
    using Cons.prems by (intro find_blank_cols_square) auto
  show ?case
  proof (cases "filter (\<lambda>c. st ! r ! c = 0) [0..<n]")
    case Nil
    then have "\<forall>c<n. st ! r ! c \<noteq> 0" by (auto simp: filter_empty_conv)
    with Nil fc len Cons show ?thesis by auto
  next
    case (Cons c cs')
    then have "c \<in> set (filter (\<lambda>c. st ! r ! c = 0) [0..<n])" by simp
    then have "c < n" "st ! r ! c = 0" by auto
    with Cons fc len show ?thesis by auto
  qed
qed

lemma in_concat_square:
  "square n st \<Longrightarrow> v \<in> set (concat st) \<longleftrightarrow> (\<exists>r<n. \<exists>c<n. st ! r ! c = v)"
  unfolding square_def
  by (auto simp: in_set_conv_nth) (metis nth_mem)+

lemma find_blank_square:
  assumes "square n st" "0 \<in> set (concat st)"
  shows "\<exists>br bc. find_blank st = Inr (Some (br, bc))"
proof -
  have len: "length st = n" using assms(1) by (simp add: square_def)
  obtain res where r: "find_blank_rows st [0..<n] = Inr res"
    "res = None \<longleftrightarrow> (\<forall>r\<in>set [0..<n]. \<forall>c<n. st ! r ! c \<noteq> 0)"
    using find_blank_rows_square[OF assms(1), of "[0..<n]"] by auto
  from assms have "\<exists>r<n. \<exists>c<n. st ! r ! c = 0" using in_concat_square[OF assms(1), of 0] by blast
  with r have "res \<noteq> None" by auto
  with r len show ?thesis by (auto simp: find_blank_def)
qed

lemma find_blank_no_zero:
  assumes "square n st" "0 \<notin> set (concat st)"
  shows "find_blank st = Inr None"
proof -
  have len: "length st = n" using assms(1) by (simp add: square_def)
  obtain res where r: "find_blank_rows st [0..<n] = Inr res"
    "res = None \<longleftrightarrow> (\<forall>r\<in>set [0..<n]. \<forall>c<n. st ! r ! c \<noteq> 0)"
    using find_blank_rows_square[OF assms(1), of "[0..<n]"] by auto
  from assms have "\<not> (\<exists>r<n. \<exists>c<n. st ! r ! c = 0)" using in_concat_square[OF assms(1), of 0] by blast
  with r have "res = None" by auto
  with r len show ?thesis by (auto simp: find_blank_def)
qed

lemma square_rows: "square n st \<Longrightarrow> r < n \<Longrightarrow> length (st ! r) = n"
  by (simp add: square_def)

lemma square_length: "square n st \<Longrightarrow> length st = n"
  by (simp add: square_def)

lemma length_concat_rows:
  "\<forall>row\<in>set st. length row = n \<Longrightarrow> length (concat st) = length st * n"
  by (induction st) auto

lemma nth_concat_rows:
  "\<forall>row\<in>set st. length row = n \<Longrightarrow> r < length st \<Longrightarrow> c < n \<Longrightarrow>
   concat st ! (r * n + c) = st ! r ! c"
proof (induction st arbitrary: r)
  case Nil
  then show ?case by simp
next
  case (Cons row rest)
  show ?case
  proof (cases r)
    case 0
    with Cons.prems show ?thesis by (simp add: nth_append)
  next
    case (Suc r')
    with Cons.prems have "concat rest ! (r' * n + c) = rest ! r' ! c"
      by (intro Cons.IH) auto
    moreover have "length row = n" using Cons.prems by simp
    ultimately show ?thesis using Suc by (simp add: nth_append)
  qed
qed

lemma concat_update_rows:
  "\<forall>row\<in>set st. length row = n \<Longrightarrow> r < length st \<Longrightarrow> c < n \<Longrightarrow>
   concat (st[r := (st ! r)[c := v]]) = (concat st)[r * n + c := v]"
proof (induction st arbitrary: r)
  case Nil
  then show ?case by simp
next
  case (Cons row rest)
  have len: "length row = n" using Cons.prems by simp
  show ?case
  proof (cases r)
    case 0
    with Cons.prems len show ?thesis by (simp add: list_update_append)
  next
    case (Suc r')
    with Cons.prems have "concat (rest[r' := (rest ! r')[c := v]]) = (concat rest)[r' * n + c := v]"
      by (intro Cons.IH) auto
    then show ?thesis using Suc len by (simp add: list_update_append)
  qed
qed

lemma flat_index_less: "r < n \<Longrightarrow> c < n \<Longrightarrow> r * n + c < n * (n::nat)"
proof -
  assume a: "r < n" "c < n"
  then have "r * n + c < r * n + n" by simp
  also have "\<dots> = Suc r * n" by simp
  also have "\<dots> \<le> n * n" using a by (intro mult_le_mono1) simp
  finally show ?thesis .
qed

lemma flat_index_inj:
  assumes "c < n" "c' < n" "r * n + c = r' * n + c'"
  shows "r = r' \<and> c = (c'::nat)"
proof -
  have d: "(r * n + c) div n = r" "(r' * n + c') div n = r'"
    and m: "(r * n + c) mod n = c" "(r' * n + c') mod n = c'"
    using assms(1,2) by simp_all
  from d assms(3) have "r = r'" by metis
  moreover from m assms(3) have "c = c'" by metis
  ultimately show ?thesis by simp
qed

lemma is_configuration_square: "is_configuration n st \<Longrightarrow> square n st"
  by (simp add: is_configuration_def)

lemma is_configuration_mset:
  "is_configuration n st \<Longrightarrow> mset (concat st) = mset (map int [0..<n * n])"
  unfolding is_configuration_def by (metis mset_sort)

lemma is_configuration_set:
  "is_configuration n st \<Longrightarrow> set (concat st) = int ` {0..<n * n}"
proof -
  assume "is_configuration n st"
  then have "set (concat st) = set (map int [0..<n * n])"
    by (intro mset_eq_setD is_configuration_mset)
  then show ?thesis by simp
qed

lemma is_configuration_distinct: "is_configuration n st \<Longrightarrow> distinct (concat st)"
proof -
  assume "is_configuration n st"
  then have "mset (concat st) = mset (map int [0..<n * n])" by (rule is_configuration_mset)
  moreover have "distinct (map int [0..<n * n])" by (simp add: distinct_map)
  ultimately show ?thesis by (metis mset_eq_imp_distinct_iff)
qed

lemma is_configuration_mset_iff:
  "is_configuration n st \<longleftrightarrow> square n st \<and> mset (concat st) = mset (map int [0..<n * n])"
proof
  assume "is_configuration n st"
  then show "square n st \<and> mset (concat st) = mset (map int [0..<n * n])"
    by (simp add: is_configuration_square is_configuration_mset)
next
  assume a: "square n st \<and> mset (concat st) = mset (map int [0..<n * n])"
  have "sorted (map int [0..<n * n])" by (simp add: sorted_map)
  with a have "sort (concat st) = map int [0..<n * n]"
    by (intro properties_for_sort) simp_all
  with a show "is_configuration n st" by (simp add: is_configuration_def)
qed

lemma is_configuration_has_blank:
  assumes "is_configuration n st" "0 < n"
  shows "0 \<in> set (concat st)"
proof -
  have "0 < n * n" using assms(2) by simp
  then have "int 0 \<in> int ` {0..<n * n}" by (intro imageI) simp
  then show ?thesis using is_configuration_set[OF assms(1)] by simp
qed

lemma square_cell_unique:
  assumes "square n st" "distinct (concat st)" "r < n" "c < n" "r' < n" "c' < n"
    "st ! r ! c = st ! r' ! c'"
  shows "r = r' \<and> c = c'"
proof -
  have rows: "\<forall>row\<in>set st. length row = n" and len: "length st = n"
    using assms(1) by (auto simp: square_def)
  have "concat st ! (r * n + c) = concat st ! (r' * n + c')"
    using assms nth_concat_rows[OF rows] len by simp
  moreover have "r * n + c < length (concat st)" "r' * n + c' < length (concat st)"
    using flat_index_less[of r n c] flat_index_less[of r' n c'] assms(3-6) len
    by (simp_all add: length_concat_rows[OF rows])
  ultimately have "r * n + c = r' * n + c'"
    using assms(2) by (simp add: nth_eq_iff_index_eq)
  then show ?thesis using assms flat_index_inj by blast
qed

subsection \<open>The heuristics on square grids\<close>

lemma misplaced_cols_sum:
  "r < length st \<Longrightarrow> r < length goal_state \<Longrightarrow>
   \<forall>c\<in>set cs. c < length (st ! r) \<and> c < length (goal_state ! r) \<Longrightarrow>
   misplaced_cols st goal_state r cs k =
     Inr (k + (\<Sum>c\<leftarrow>cs. misplaced_at goal_state r c (st ! r ! c)))"
  by (induction cs arbitrary: k) (simp_all add: cell_def misplaced_at_def)

lemma misplaced_rows_sum:
  "square n st \<Longrightarrow> square n goal_state \<Longrightarrow> \<forall>r\<in>set rs. r < n \<Longrightarrow>
   misplaced_rows st goal_state rs k =
     Inr (k + (\<Sum>r\<leftarrow>rs. \<Sum>c\<leftarrow>[0..<n]. misplaced_at goal_state r c (st ! r ! c)))"
proof (induction rs arbitrary: k)
  case Nil
  then show ?case by simp
next
  case (Cons r rs)
  have "misplaced_cols st goal_state r [0..<n] k =
      Inr (k + (\<Sum>c\<leftarrow>[0..<n]. misplaced_at goal_state r c (st ! r ! c)))"
    using Cons.prems by (intro misplaced_cols_sum) (simp_all add: square_def)
  moreover have "length st = n" using Cons.prems by (simp add: square_def)
  ultimately show ?case using Cons by (simp add: add.assoc)
qed

lemma misplaced_tile_heuristic_sum:
  "square n st \<Longrightarrow> square n goal_state \<Longrightarrow>
   misplaced_tile_heuristic st goal_state = Inr (grid_sum (misplaced_at goal_state) n st)"
  using misplaced_rows_sum[of n st goal_state "[0..<n]" 0]
  by (simp add: misplaced_tile_heuristic_def grid_sum_def square_def)

lemma manhattan_cols_sum:
  "r < length st \<Longrightarrow> \<forall>c\<in>set cs. c < length (st ! r) \<and> (st ! r ! c \<noteq> 0 \<longrightarrow> st ! r ! c \<in> dom gp) \<Longrightarrow>
   manhattan_cols gp st r cs k = Inr (k + (\<Sum>c\<leftarrow>cs. manhattan_at gp r c (st ! r ! c)))"
  by (induction cs arbitrary: k) (auto simp: cell_def manhattan_at_def)

lemma manhattan_rows_sum:
  "square n st \<Longrightarrow> \<forall>r<n. \<forall>c<n. st ! r ! c \<noteq> 0 \<longrightarrow> st ! r ! c \<in> dom gp \<Longrightarrow>
   \<forall>r\<in>set rs. r < n \<Longrightarrow>
   manhattan_rows gp st n rs k =
     Inr (k + (\<Sum>r\<leftarrow>rs. \<Sum>c\<leftarrow>[0..<n]. manhattan_at gp r c (st ! r ! c)))"
proof (induction rs arbitrary: k)
  case Nil
  then show ?case by simp
next
  case (Cons r rs)
  have "manhattan_cols gp st r [0..<n] k =
      Inr (k + (\<Sum>c\<leftarrow>[0..<n]. manhattan_at gp r c (st ! r ! c)))"
    using Cons.prems by (intro manhattan_cols_sum) (simp_all add: square_def)
  then show ?case using Cons by (simp add: add.assoc)
qed

lemma manhattan_distance_heuristic_sum:
  "square n st \<Longrightarrow> length goal_state = n \<Longrightarrow>
   \<forall>r<n. \<forall>c<n. st ! r ! c \<noteq> 0 \<longrightarrow> st ! r ! c \<in> dom gp \<Longrightarrow>
   manhattan_distance_heuristic gp st goal_state = Inr (grid_sum (manhattan_at gp) n st)"
  using manhattan_rows_sum[of n st gp "[0..<n]" 0]
  by (simp add: manhattan_distance_heuristic_def grid_sum_def)

lemma points_into_update:
  "points_into goal_state gp \<Longrightarrow> r < length goal_state \<Longrightarrow> c < length goal_state \<Longrightarrow>
   points_into goal_state (gp(goal_state ! r ! c \<mapsto> (r, c)))"
  by (simp add: points_into_def)

lemma precompute_cols_ok:
  "r < length goal_state \<Longrightarrow>
   \<forall>c\<in>set cs. c < length (goal_state ! r) \<and> c < length goal_state \<Longrightarrow>
   points_into goal_state gp \<Longrightarrow>
   \<exists>gp'. precompute_cols goal_state r cs gp = Inr gp' \<and> points_into goal_state gp' \<and>
         dom gp' = dom gp \<union> (\<lambda>c. goal_state ! r ! c) ` set cs"
proof (induction cs arbitrary: gp)
  case Nil
  then show ?case by simp
next
  case (Cons c cs)
  have "points_into goal_state (gp(goal_state ! r ! c \<mapsto> (r, c)))"
    using Cons.prems by (intro points_into_update) simp_all
  moreover have "\<forall>c\<in>set cs. c < length (goal_state ! r) \<and> c < length goal_state"
    using Cons.prems(2) by simp
  ultimately obtain gp' where gp': "precompute_cols goal_state r cs (gp(goal_state ! r ! c \<mapsto> (r, c))) = Inr gp'"
    "points_into goal_state gp'"
    "dom gp' = dom (gp(goal_state ! r ! c \<mapsto> (r, c))) \<union> (\<lambda>c. goal_state ! r ! c) ` set cs"
    using Cons.IH[OF Cons.prems(1)] by blast
  have "precompute_cols goal_state r (c # cs) gp = Inr gp'"
    using gp'(1) Cons.prems(1,2) by (simp add: cell_def)
  moreover have "dom gp' = dom gp \<union> (\<lambda>c. goal_state ! r ! c) ` set (c # cs)"
    unfolding gp'(3) by auto
  ultimately show ?case using gp'(2) by blast
qed

lemma precompute_rows_ok:
  "square n goal_state \<Longrightarrow> \<forall>r\<in>set rs. r < n \<Longrightarrow> points_into goal_state gp \<Longrightarrow>
   \<exists>gp'. precompute_rows goal_state rs gp = Inr gp' \<and> points_into goal_state gp' \<and>
         dom gp' = dom gp \<union> {goal_state ! r ! c | r c. r \<in> set rs \<and> c < n}"
proof (induction rs arbitrary: gp)
  case Nil
  then show ?case by simp
next
  case (Cons r rs)
  have len: "length goal_state = n" and row: "length (goal_state ! r) = n"
    using Cons.prems by (simp_all add: square_def)
  obtain gp1 where 1: "precompute_cols goal_state r [0..<n] gp = Inr gp1"
      "points_into goal_state gp1"
      "dom gp1 = dom gp \<union> (\<lambda>c. goal_state ! r ! c) ` set [0..<n]"
    using precompute_cols_ok[of r goal_state "[0..<n]" gp] Cons.prems len row by auto
  obtain gp2 where 2: "precompute_rows goal_state rs gp1 = Inr gp2"
      "points_into goal_state gp2"
      "dom gp2 = dom gp1 \<union> {goal_state ! r ! c | r c. r \<in> set rs \<and> c < n}"
    using Cons.IH[OF Cons.prems(1) _ 1(2)] Cons.prems(2) by auto
  have "dom gp2 = dom gp \<union> {goal_state ! r' ! c | r' c. r' \<in> set (r # rs) \<and> c < n}"
    unfolding 2(3) 1(3) by (auto simp: image_iff) blast+
  with 1 2 len show ?case by simp
qed

lemma precompute_goal_pos_ok:
  assumes "square n goal_state"
  shows "\<exists>gp. precompute_goal_pos goal_state = Inr gp \<and> points_into goal_state gp \<and>
           dom gp = set (concat goal_state)"
proof -
  have len: "length goal_state = n" using assms by (simp add: square_def)
  have "points_into goal_state Map.empty" by (simp add: points_into_def)
  from precompute_rows_ok[OF assms _ this, of "[0..<n]"]
  obtain gp where gp: "precompute_rows goal_state [0..<n] Map.empty = Inr gp"
    "points_into goal_state gp"
    "dom gp = {goal_state ! r ! c | r c. r \<in> set [0..<n] \<and> c < n}"
    by auto
  have "v \<in> dom gp \<longleftrightarrow> v \<in> set (concat goal_state)" for v
    unfolding gp(3) in_concat_square[OF assms] by auto
  then have "dom gp = set (concat goal_state)" by blast
  with gp len show ?thesis by (simp add: precompute_goal_pos_def)
qed

subsection \<open>The first pass of the search loop\<close>

lemma heapify_singleton: "heapify [x] = [x]"
  by (simp add: heapify_def)

lemma heappop_singleton: "heappop [x] = Inr (x, [])"
  by (simp add: heappop_def)

lemma heuristic_call_same_square:
  assumes "square n goal_state" "search_goal_pos gp0 goal_state hf = Inr gp"
  shows "\<exists>h. heuristic_call gp hf goal_state goal_state = Inr h"
proof (cases hf)
  case NoHeuristic
  then show ?thesis by (simp add: no_heuristic_def)
next
  case MisplacedTile
  then show ?thesis using misplaced_tile_heuristic_sum[OF assms(1) assms(1)] by simp
next
  case ManhattanDistance
  with assms(2) have "precompute_goal_pos goal_state = Inr gp"
    by (simp add: search_goal_pos_def)
  with precompute_goal_pos_ok[OF assms(1)] have dom: "dom gp = set (concat goal_state)"
    by auto
  have "\<forall>r<n. \<forall>c<n. goal_state ! r ! c \<noteq> 0 \<longrightarrow> goal_state ! r ! c \<in> dom gp"
    unfolding dom in_concat_square[OF assms(1)] by blast
  from manhattan_distance_heuristic_sum[OF assms(1) _ this, of goal_state]
  show ?thesis using ManhattanDistance assms(1) by (simp add: square_def)
qed

lemma search_goal_pos_square:
  "square n goal_state \<Longrightarrow> \<exists>gp. search_goal_pos gp0 goal_state hf = Inr gp"
  using precompute_goal_pos_ok[of n goal_state] by (auto simp: search_goal_pos_def)

lemma search_loop_root_is_goal:
  "search_loop gp goal_state hf (initial_search_state goal_state h) =
     Some (Inr (Some (PuzzleNode_init goal_state None None 0 h), 0, 1))"
  by (subst search_loop.simps)
     (simp add: initial_search_state_def heapify_singleton search_iteration_def
        heappop_singleton goal_test_def PuzzleNode_init_def)

text \<open>
  Claim C8. When the initial Configuration already equals the goal Configuration,
  \<^verbatim>\<open>general_search\<close> with any of the three heuristics returns a solution of depth 0
  with an expansion count of exactly 0: the goal test comes before the count. It holds
  for every square grid, so for every Configuration, and whatever the global
  \<^verbatim>\<open>goal_pos\<close> held before the call.
\<close>

theorem general_search_initial_is_goal:
  assumes "square n goal_state"
  shows "\<exists>node. general_search gp0 goal_state goal_state hf = Some (Inr (Some node, 0, 1)) \<and>
           state node = goal_state \<and> g_cost node = 0 \<and> parent node = None"
proof -
  obtain gp where gp: "search_goal_pos gp0 goal_state hf = Inr gp"
    using search_goal_pos_square[OF assms] by blast
  obtain h where h: "heuristic_call gp hf goal_state goal_state = Inr h"
    using heuristic_call_same_square[OF assms gp] by blast
  have "general_search gp0 goal_state goal_state hf =
      Some (Inr (Some (PuzzleNode_init goal_state None None 0 h), 0, 1))"
    by (simp add: general_search_def gp h search_loop_root_is_goal)
  then show ?thesis by (simp add: PuzzleNode_init_def)
qed

theorem general_search_initial_is_goal_witness:
  "square 3 [[1, 2, 3], [4, 5, 6], [7, 8, 0]] \<and>
   (\<exists>node. general_search Map.empty [[1, 2, 3], [4, 5, 6], [7, 8, 0]]
        [[1, 2, 3], [4, 5, 6], [7, 8, 0]] ManhattanDistance = Some (Inr (Some node, 0, 1)) \<and>
      state node = [[1, 2, 3], [4, 5, 6], [7, 8, 0]] \<and> g_cost node = 0 \<and> parent node = None)"
proof -
  have sq: "square 3 [[1, 2, 3], [4, 5, 6], [7, 8, 0]]" by (simp add: square_def)
  show ?thesis
    using sq general_search_initial_is_goal[OF sq, of Map.empty ManhattanDistance] by blast
qed

text \<open>
  Claim C10. \<^verbatim>\<open>manhattan_distance_heuristic\<close> uses its \<^verbatim>\<open>goal_state\<close> argument
  only through its length: with the global \<^verbatim>\<open>goal_pos\<close> fixed, two goal grids of the
  same size give the same result (a value or an exception) on every state. The result
  is a function of the state and of the dictionary that the last call of
  \<^verbatim>\<open>precompute_goal_pos\<close> left in the global.
\<close>

theorem manhattan_ignores_goal_contents:
  "length goal1 = length goal2 \<Longrightarrow>
   manhattan_distance_heuristic gp st goal1 = manhattan_distance_heuristic gp st goal2"
  by (simp add: manhattan_distance_heuristic_def)

theorem manhattan_ignores_goal_contents_witness:
  "length [[1, 2], [3, 0::int]] = length [[3, 0], [2, 1::int]] \<and>
   manhattan_distance_heuristic [1 \<mapsto> (0, 0), 2 \<mapsto> (0, 1), 3 \<mapsto> (1, 0), 0 \<mapsto> (1, 1)]
       [[2, 1], [3, 0]] [[1, 2], [3, 0]] =
   manhattan_distance_heuristic [1 \<mapsto> (0, 0), 2 \<mapsto> (0, 1), 3 \<mapsto> (1, 0), 0 \<mapsto> (1, 1)]
       [[2, 1], [3, 0]] [[3, 0], [2, 1]]"
  using manhattan_ignores_goal_contents
    [of "[[1, 2], [3, 0]]" "[[3, 0], [2, 1]]"
        "[1 \<mapsto> (0, 0), 2 \<mapsto> (0, 1), 3 \<mapsto> (1, 0), 0 \<mapsto> (1, 1)]" "[[2, 1], [3, 0]]"]
  by simp

subsection \<open>The goal-position dictionary of a Configuration\<close>

lemma precompute_goal_pos_configuration:
  assumes "is_configuration n goal_state"
  shows "\<exists>gp. precompute_goal_pos goal_state = Inr gp \<and> dom gp = set (concat goal_state) \<and>
           (\<forall>r<n. \<forall>c<n. gp (goal_state ! r ! c) = Some (r, c))"
proof -
  have sq: "square n goal_state" using assms by (rule is_configuration_square)
  have len: "length goal_state = n" using sq by (rule square_length)
  obtain gp where gp: "precompute_goal_pos goal_state = Inr gp" "points_into goal_state gp"
    "dom gp = set (concat goal_state)"
    using precompute_goal_pos_ok[OF sq] by blast
  have "gp (goal_state ! r ! c) = Some (r, c)" if rc: "r < n" "c < n" for r c
  proof -
    have "goal_state ! r ! c \<in> dom gp"
      unfolding gp(3) in_concat_square[OF sq] using rc by blast
    then obtain r' c' where p: "gp (goal_state ! r ! c) = Some (r', c')" by auto
    with gp(2) len have "r' < n" "c' < n" "goal_state ! r' ! c' = goal_state ! r ! c"
      by (auto simp: points_into_def)
    with square_cell_unique[OF sq is_configuration_distinct[OF assms], of r' c' r c] rc
    have "r' = r \<and> c' = c" by simp
    with p show ?thesis by simp
  qed
  with gp show ?thesis by blast
qed

lemma configuration_tiles_known:
  assumes "is_configuration n st" "is_configuration n goal_state"
    "dom gp = set (concat goal_state)"
  shows "\<forall>r<n. \<forall>c<n. st ! r ! c \<noteq> 0 \<longrightarrow> st ! r ! c \<in> dom gp"
proof -
  have "set (concat st) = set (concat goal_state)"
    unfolding is_configuration_set[OF assms(1)] is_configuration_set[OF assms(2)] ..
  then show ?thesis
    unfolding assms(3) using in_concat_square[OF is_configuration_square[OF assms(1)]] by blast
qed

lemma grid_sum_as_sum:
  "grid_sum \<phi> n st = (\<Sum>r = 0..<n. \<Sum>c = 0..<n. \<phi> r c (st ! r ! c))"
  by (simp add: grid_sum_def interv_sum_list_conv_sum_set_nat)

subsection \<open>The swap and \<^verbatim>\<open>expand\<close>\<close>

lemma swap_cells_ok:
  assumes "br < length st" "bc < length (st ! br)" "nr < length st" "nc < length (st ! nr)"
  shows "swap_cells st br bc nr nc = Inr (swapped st (br, bc) (nr, nc))"
proof -
  let ?a = "st ! nr ! nc" and ?b = "st ! br ! bc"
  let ?s1 = "st[br := (st ! br)[bc := ?a]]"
  let ?s2 = "?s1[nr := (?s1 ! nr)[nc := ?b]]"
  have "?s2 = swapped st (br, bc) (nr, nc)"
  proof (rule nth_equalityI)
    show "length ?s2 = length (swapped st (br, bc) (nr, nc))" by (simp add: swapped_def)
  next
    fix r assume "r < length ?s2"
    then have r: "r < length st" by simp
    show "?s2 ! r = swapped st (br, bc) (nr, nc) ! r"
    proof (rule nth_equalityI)
      show "length (?s2 ! r) = length (swapped st (br, bc) (nr, nc) ! r)"
        using r assms by (simp add: swapped_def nth_list_update)
    next
      fix c assume "c < length (?s2 ! r)"
      then have c: "c < length (st ! r)" using r assms by (simp add: nth_list_update split: if_splits)
      show "?s2 ! r ! c = swapped st (br, bc) (nr, nc) ! r ! c"
        using r c assms by (auto simp: swapped_def nth_list_update)
    qed
  qed
  then show ?thesis using assms by (simp add: swap_cells_def cell_def Let_def)
qed

lemma swap_cells_Inr:
  "swap_cells st br bc nr nc = Inr st' \<Longrightarrow>
   br < length st \<and> bc < length (st ! br) \<and> nr < length st \<and> nc < length (st ! nr) \<and>
   st' = swapped st (br, bc) (nr, nc)"
proof -
  assume a: "swap_cells st br bc nr nc = Inr st'"
  then have b: "br < length st \<and> bc < length (st ! br) \<and> nr < length st \<and> nc < length (st ! nr)"
    by (auto simp: swap_cells_def cell_def split: if_splits sum.splits)
  with a swap_cells_ok[of br st bc nr nc] show ?thesis by simp
qed

lemma swapped_nth:
  "r < length st \<Longrightarrow> c < length (st ! r) \<Longrightarrow>
   swapped st p q ! r ! c =
     (if (r, c) = p then st ! fst q ! snd q
      else if (r, c) = q then st ! fst p ! snd p else st ! r ! c)"
  by (simp add: swapped_def)

lemma length_swapped [simp]: "length (swapped st p q) = length st"
  by (simp add: swapped_def)

lemma length_swapped_row: "r < length st \<Longrightarrow> length (swapped st p q ! r) = length (st ! r)"
  by (simp add: swapped_def)

lemma square_swapped: "square n st \<Longrightarrow> square n (swapped st p q)"
  by (auto simp: square_def swapped_def)

lemma swapped_as_updates:
  assumes "br < length st" "bc < length (st ! br)" "nr < length st" "nc < length (st ! nr)"
  shows "swapped st (br, bc) (nr, nc) =
     (st[br := (st ! br)[bc := st ! nr ! nc]])
       [nr := ((st[br := (st ! br)[bc := st ! nr ! nc]]) ! nr)[nc := st ! br ! bc]]"
  using swap_cells_ok[OF assms] assms by (simp add: swap_cells_def cell_def Let_def)

lemma is_configuration_swapped:
  assumes "is_configuration n st" "br < n" "bc < n" "nr < n" "nc < n"
  shows "is_configuration n (swapped st (br, bc) (nr, nc))"
proof -
  have sq: "square n st" using assms(1) by (rule is_configuration_square)
  have len: "length st = n" and rows: "\<forall>row\<in>set st. length row = n"
    using sq by (auto simp: square_def)
  let ?a = "st ! nr ! nc" and ?b = "st ! br ! bc"
  let ?s1 = "st[br := (st ! br)[bc := ?a]]"
  let ?i = "br * n + bc" and ?j = "nr * n + nc"
  have rowlen: "length (st ! br) = n" "length (st ! nr) = n"
    using sq assms by (simp_all add: square_rows)
  have rows1: "\<forall>row\<in>set ?s1. length row = n"
    using rows rowlen by (auto dest!: set_update_subset_insert[THEN subsetD])
  have eq: "swapped st (br, bc) (nr, nc) = ?s1[nr := (?s1 ! nr)[nc := ?b]]"
    using assms len rowlen by (intro swapped_as_updates) simp_all
  have "concat ?s1 = (concat st)[?i := ?a]"
    using rows assms len by (intro concat_update_rows) simp_all
  moreover have "concat (?s1[nr := (?s1 ! nr)[nc := ?b]]) = (concat ?s1)[?j := ?b]"
    using rows1 assms len by (intro concat_update_rows) simp_all
  ultimately have flat: "concat (swapped st (br, bc) (nr, nc)) = (concat st)[?i := ?a, ?j := ?b]"
    using eq by simp
  have ij: "?i < length (concat st)" "?j < length (concat st)"
    using flat_index_less[of br n bc] flat_index_less[of nr n nc] assms len
    by (simp_all add: length_concat_rows[OF rows])
  have ab: "?a = concat st ! ?j" "?b = concat st ! ?i"
    using nth_concat_rows[OF rows] assms len by simp_all
  have "mset (concat (swapped st (br, bc) (nr, nc))) = mset (concat st)"
    unfolding flat ab using mset_swap[OF ij(2) ij(1)] by simp
  then show ?thesis
    using assms(1) square_swapped[OF sq] by (simp add: is_configuration_mset_iff)
qed

lemma heuristic_call_configuration:
  assumes "is_configuration n st" "is_configuration n goal_state"
    "search_goal_pos gp0 goal_state hf = Inr gp"
  shows "heuristic_call gp hf st goal_state = Inr (heuristic_value gp hf goal_state n st)"
proof (cases hf)
  case NoHeuristic
  then show ?thesis by (simp add: no_heuristic_def heuristic_value_def)
next
  case MisplacedTile
  then show ?thesis
    using misplaced_tile_heuristic_sum[OF is_configuration_square[OF assms(1)]
        is_configuration_square[OF assms(2)]]
    by (simp add: heuristic_value_def)
next
  case ManhattanDistance
  with assms(3) have "precompute_goal_pos goal_state = Inr gp"
    by (simp add: search_goal_pos_def)
  with precompute_goal_pos_configuration[OF assms(2)]
  have dom: "dom gp = set (concat goal_state)" by auto
  have len: "length goal_state = n"
    using assms(2) by (simp add: is_configuration_def square_def)
  from manhattan_distance_heuristic_sum[OF is_configuration_square[OF assms(1)] len
      configuration_tiles_known[OF assms(1) assms(2) dom]]
  show ?thesis using ManhattanDistance by (simp add: heuristic_value_def)
qed

lemma expand_moves_ok:
  assumes "length (state node) = n"
    "\<forall>m\<in>set ms. move_in_bounds n br bc m \<longrightarrow>
       (\<exists>st' h. swap_cells (state node) br bc (nat (int br + fst m)) (nat (int bc + fst (snd m)))
                  = Inr st' \<and> heuristic_call gp hf st' goal_state = Inr h)"
  shows "expand_moves gp node goal_state hf br bc ms acc =
     Inr (acc @ map (child_node gp hf goal_state node br bc)
                  (filter (move_in_bounds n br bc) ms))"
  using assms(2)
proof (induction ms arbitrary: acc)
  case Nil
  then show ?case by simp
next
  case (Cons m ms)
  obtain dr dc a where m: "m = (dr, dc, a)" by (cases m) auto
  have IH: "expand_moves gp node goal_state hf br bc ms acc' =
     Inr (acc' @ map (child_node gp hf goal_state node br bc)
                  (filter (move_in_bounds n br bc) ms))" for acc'
    using Cons.prems by (intro Cons.IH) simp
  have step: "expand_moves gp node goal_state hf br bc (m # ms) acc =
      (if move_in_bounds n br bc m then
         (case swap_cells (state node) br bc (nat (int br + dr)) (nat (int bc + dc)) of
            Inl e \<Rightarrow> Inl e
          | Inr new_state \<Rightarrow>
              (case heuristic_call gp hf new_state goal_state of
                 Inl e \<Rightarrow> Inl e
               | Inr new_h_cost \<Rightarrow>
                   expand_moves gp node goal_state hf br bc ms
                     (acc @ [PuzzleNode_init new_state (Some node) (Some a)
                               (g_cost node + 1) new_h_cost])))
       else expand_moves gp node goal_state hf br bc ms acc)"
    by (simp add: m move_in_bounds_def in_grid_def Let_def assms(1))
  show ?case
  proof (cases "move_in_bounds n br bc m")
    case False
    then show ?thesis using IH by (simp add: step)
  next
    case True
    with Cons.prems obtain st' h where
      s: "swap_cells (state node) br bc (nat (int br + dr)) (nat (int bc + dc)) = Inr st'"
      and h: "heuristic_call gp hf st' goal_state = Inr h"
      using m by auto
    from swap_cells_Inr[OF s]
    have st': "st' = swapped (state node) (br, bc) (nat (int br + dr), nat (int bc + dc))"
      by simp
    have "child_node gp hf goal_state node br bc m =
        PuzzleNode_init st' (Some node) (Some a) (g_cost node + 1) h"
      using h by (simp add: child_node_def m st' Let_def)
    then show ?thesis using True IH s h by (simp add: step)
  qed
qed

lemma expand_Inr_find_blank:
  "expand gp node goal_state hf = Inr succs \<Longrightarrow>
   \<exists>br bc. find_blank (state node) = Inr (Some (br, bc))"
  by (auto simp: expand_def split: sum.splits option.splits)

lemma find_blank_configuration:
  assumes "is_configuration n st" "0 < n"
  shows "\<exists>br bc. find_blank st = Inr (Some (br, bc)) \<and> br < n \<and> bc < n \<and> st ! br ! bc = 0"
proof -
  have sq: "square n st" using assms(1) by (rule is_configuration_square)
  obtain br bc where b: "find_blank st = Inr (Some (br, bc))"
    using find_blank_square[OF sq is_configuration_has_blank[OF assms]] by blast
  from find_blank_Some[OF b] square_length[OF sq] show ?thesis using b by auto
qed

lemma move_target_in_range:
  "move_in_bounds n br bc m \<Longrightarrow>
   nat (int br + fst m) < n \<and> nat (int bc + fst (snd m)) < n"
  by (auto simp: move_in_bounds_def in_grid_def)

lemma expand_configuration:
  assumes "is_configuration n (state node)" "is_configuration n goal_state"
    "search_goal_pos gp0 goal_state hf = Inr gp"
    "find_blank (state node) = Inr (Some (br, bc))"
  shows "expand gp node goal_state hf =
     Inr (map (child_node gp hf goal_state node br bc) (filter (move_in_bounds n br bc) moves))"
proof -
  have sq: "square n (state node)" using assms(1) by (rule is_configuration_square)
  have len: "length (state node) = n" using sq by (rule square_length)
  from find_blank_Some[OF assms(4)] len have b: "br < n" "bc < n" by simp_all
  have "\<exists>st' h. swap_cells (state node) br bc (nat (int br + fst m)) (nat (int bc + fst (snd m)))
                  = Inr st' \<and> heuristic_call gp hf st' goal_state = Inr h"
    if "move_in_bounds n br bc m" for m
  proof -
    let ?nr = "nat (int br + fst m)" and ?nc = "nat (int bc + fst (snd m))"
    have t: "?nr < n" "?nc < n" using move_target_in_range[OF that] by simp_all
    have "swap_cells (state node) br bc ?nr ?nc = Inr (swapped (state node) (br, bc) (?nr, ?nc))"
      using b t len square_rows[OF sq] by (intro swap_cells_ok) simp_all
    moreover have "is_configuration n (swapped (state node) (br, bc) (?nr, ?nc))"
      using assms(1) b t by (rule is_configuration_swapped)
    ultimately show ?thesis
      using heuristic_call_configuration[OF _ assms(2,3)] by blast
  qed
  then have "expand_moves gp node goal_state hf br bc moves [] =
     Inr ([] @ map (child_node gp hf goal_state node br bc) (filter (move_in_bounds n br bc) moves))"
    by (intro expand_moves_ok[OF len]) blast
  then show ?thesis using assms(4) by (simp add: expand_def)
qed

lemma moves_in_bounds_actions:
  "map (snd \<circ> snd) (filter (move_in_bounds n br bc) moves) =
   filter (\<lambda>a. in_grid n (blank_target br bc a)) [''Up'', ''Down'', ''Left'', ''Right'']"
  by (simp add: moves_def move_in_bounds_def blank_target_def direction_delta_def)

lemma child_node_fields:
  "state (child_node gp hf goal_state node br bc m) =
     swapped (state node) (br, bc) (nat (int br + fst m), nat (int bc + fst (snd m)))"
  "parent (child_node gp hf goal_state node br bc m) = Some node"
  "action (child_node gp hf goal_state node br bc m) = Some (snd (snd m))"
  "g_cost (child_node gp hf goal_state node br bc m) = g_cost node + 1"
  "f_cost (child_node gp hf goal_state node br bc m) =
     g_cost (child_node gp hf goal_state node br bc m) +
     h_cost (child_node gp hf goal_state node br bc m)"
  by (simp_all add: child_node_def PuzzleNode_init_def Let_def)

lemma moves_delta: "m \<in> set moves \<Longrightarrow> (fst m, fst (snd m)) = direction_delta (snd (snd m))"
  by (auto simp: moves_def direction_delta_def)

text \<open>
  Claim C5. For a node that holds a Configuration (with the goal a Configuration too
  and the dictionary that the search run installed, so that the heuristic is defined)
  \<^verbatim>\<open>expand\<close> returns at most four successors, one for each of Up, Down, Left, Right, in
  this order, whose target cell lies in the grid. Each successor has the input node as
  its parent, \<open>g_cost\<close> one more than the parent's, \<open>h_cost\<close> the heuristic of its own
  state, \<open>f_cost\<close> their sum, and as state the parent's state with the blank and the
  target cell exchanged. The parent recorded in each successor is the input node as it
  was passed in, state included: the swap is done on a copy.
\<close>

theorem expand_spec:
  assumes "is_configuration n (state node)" "0 < n" "is_configuration n goal_state"
    "search_goal_pos gp0 goal_state hf = Inr gp"
  shows "\<exists>br bc succs.
     find_blank (state node) = Inr (Some (br, bc)) \<and> br < n \<and> bc < n \<and>
     state node ! br ! bc = 0 \<and>
     expand gp node goal_state hf = Inr succs \<and> length succs \<le> 4 \<and>
     map action succs =
       map Some (filter (\<lambda>a. in_grid n (blank_target br bc a))
                   [''Up'', ''Down'', ''Left'', ''Right'']) \<and>
     (\<forall>s\<in>set succs. \<exists>a.
        action s = Some a \<and> in_grid n (blank_target br bc a) \<and>
        state s = swapped (state node) (br, bc)
                    (nat (fst (blank_target br bc a)), nat (snd (blank_target br bc a))) \<and>
        parent s = Some node \<and> g_cost s = g_cost node + 1 \<and>
        heuristic_call gp hf (state s) goal_state = Inr (h_cost s) \<and>
        f_cost s = g_cost s + h_cost s)"
proof -
  obtain br bc where b: "find_blank (state node) = Inr (Some (br, bc))" "br < n" "bc < n"
    "state node ! br ! bc = 0"
    using find_blank_configuration[OF assms(1,2)] by blast
  let ?ms = "filter (move_in_bounds n br bc) moves"
  let ?succs = "map (child_node gp hf goal_state node br bc) ?ms"
  have ex: "expand gp node goal_state hf = Inr ?succs"
    using assms(1,3,4) b(1) by (rule expand_configuration)
  have "length ?ms \<le> length moves" by (rule length_filter_le)
  then have len: "length ?succs \<le> 4" by (simp add: moves_def)
  have acts: "map action ?succs =
      map Some (filter (\<lambda>a. in_grid n (blank_target br bc a))
                  [''Up'', ''Down'', ''Left'', ''Right''])"
    unfolding moves_in_bounds_actions[symmetric] by (simp add: child_node_fields)
  have each: "\<exists>a. action s = Some a \<and> in_grid n (blank_target br bc a) \<and>
        state s = swapped (state node) (br, bc)
                    (nat (fst (blank_target br bc a)), nat (snd (blank_target br bc a))) \<and>
        parent s = Some node \<and> g_cost s = g_cost node + 1 \<and>
        heuristic_call gp hf (state s) goal_state = Inr (h_cost s) \<and>
        f_cost s = g_cost s + h_cost s" if "s \<in> set ?succs" for s
  proof -
    from that obtain m where m: "m \<in> set moves" "move_in_bounds n br bc m"
      and s: "s = child_node gp hf goal_state node br bc m" by auto
    let ?a = "snd (snd m)"
    have tgt: "blank_target br bc ?a = (int br + fst m, int bc + fst (snd m))"
      using moves_delta[OF m(1)] by (simp add: blank_target_def prod_eq_iff)
    have inb: "in_grid n (blank_target br bc ?a)"
      using m(2) by (simp add: tgt move_in_bounds_def)
    have st: "state s = swapped (state node) (br, bc)
        (nat (fst (blank_target br bc ?a)), nat (snd (blank_target br bc ?a)))"
      by (simp add: s child_node_fields tgt)
    have "is_configuration n (state s)"
      unfolding s child_node_fields
      using assms(1) b(2,3) move_target_in_range[OF m(2)]
      by (intro is_configuration_swapped) simp_all
    from heuristic_call_configuration[OF this assms(3,4)]
    have "heuristic_call gp hf (state s) goal_state = Inr (h_cost s)"
      by (simp add: s child_node_def Let_def PuzzleNode_init_def)
    with inb st show ?thesis
      by (intro exI[of _ ?a]) (simp add: s child_node_fields)
  qed
  from b ex len acts each show ?thesis by blast
qed

theorem expand_spec_witness:
  "is_configuration 3 (state (Node [[1, 2, 3], [4, 5, 6], [7, 0, 8]] None None 0 1 1)) \<and>
   (0::nat) < 3 \<and> is_configuration 3 [[1, 2, 3], [4, 5, 6], [7, 8, 0]] \<and>
   search_goal_pos Map.empty [[1, 2, 3], [4, 5, 6], [7, 8, 0]] MisplacedTile = Inr Map.empty \<and>
   (\<exists>br bc succs.
     find_blank (state (Node [[1, 2, 3], [4, 5, 6], [7, 0, 8]] None None 0 1 1)) =
       Inr (Some (br, bc)) \<and>
     expand Map.empty (Node [[1, 2, 3], [4, 5, 6], [7, 0, 8]] None None 0 1 1)
       [[1, 2, 3], [4, 5, 6], [7, 8, 0]] MisplacedTile = Inr succs \<and>
     length succs \<le> 4 \<and>
     map action succs =
       map Some (filter (\<lambda>a. in_grid 3 (blank_target br bc a))
                   [''Up'', ''Down'', ''Left'', ''Right'']))"
proof -
  have c: "is_configuration 3 (state (Node [[1, 2, 3], [4, 5, 6], [7, 0, 8]] None None 0 1 1))"
    by (simp add: is_configuration_def square_def upt_conv_Cons)
  have g: "is_configuration 3 [[1, 2, 3], [4, 5, 6], [7, 8, 0]]"
    by (simp add: is_configuration_def square_def upt_conv_Cons)
  have p: "search_goal_pos Map.empty [[1, 2, 3], [4, 5, 6], [7, 8, 0]] MisplacedTile = Inr Map.empty"
    by (simp add: search_goal_pos_def)
  have n: "(0::nat) < 3" by simp
  show ?thesis using c g p n expand_spec[OF c n g p] by blast
qed

subsection \<open>The order of the nodes\<close>

lemma node_le_iff:
  "node_le a b \<longleftrightarrow> f_cost a < f_cost b \<or> (f_cost a = f_cost b \<and> g_cost a \<le> g_cost b)"
  by (auto simp: node_le_def node_lt_def)

lemma node_le_refl: "node_le a a"
  by (simp add: node_le_iff)

lemma node_le_trans: "node_le a b \<Longrightarrow> node_le b c \<Longrightarrow> node_le a c"
  by (auto simp: node_le_iff)

lemma node_lt_le: "node_lt a b \<Longrightarrow> node_le a b"
  by (auto simp: node_le_iff node_lt_def split: if_splits)

lemma not_node_lt_le: "\<not> node_lt a b \<Longrightarrow> node_le b a"
  by (simp add: node_le_def)

subsection \<open>The heap functions keep the elements\<close>

lemma mset_update_add:
  "i < length xs \<Longrightarrow> add_mset (xs ! i) (mset (xs[i := v])) = add_mset v (mset xs)"
  by (simp add: mset_update nth_mem_mset)

lemma length_siftdown_loop [simp]:
  "length (siftdown_loop heap startpos newitem pos) = length heap"
proof (induction heap startpos newitem pos rule: siftdown_loop.induct)
  case (1 heap startpos newitem pos)
  show ?case
    by (subst siftdown_loop.simps) (simp add: 1 Let_def)
qed

lemma mset_siftdown_loop:
  "pos < length heap \<Longrightarrow>
   add_mset (heap ! pos) (mset (siftdown_loop heap startpos newitem pos)) =
   add_mset newitem (mset heap)"
proof (induction heap startpos newitem pos rule: siftdown_loop.induct)
  case (1 heap startpos newitem pos)
  let ?pp = "(pos - 1) div 2"
  let ?par = "heap ! ?pp"
  show ?case
  proof (cases "startpos < pos \<and> node_lt newitem ?par")
    case False
    then have "siftdown_loop heap startpos newitem pos = heap[pos := newitem]"
      by (subst siftdown_loop.simps) (auto simp: Let_def)
    then show ?thesis using "1.prems" by (simp add: mset_update_add)
  next
    case True
    then have pp: "?pp < pos" by auto
    have res: "siftdown_loop heap startpos newitem pos =
        siftdown_loop (heap[pos := ?par]) startpos newitem ?pp"
      using True by (subst siftdown_loop.simps) (simp add: Let_def)
    have "add_mset ((heap[pos := ?par]) ! ?pp)
            (mset (siftdown_loop (heap[pos := ?par]) startpos newitem ?pp)) =
          add_mset newitem (mset (heap[pos := ?par]))"
      using True pp "1.prems" by (intro "1.IH"[OF _ refl refl]) simp_all
    then have a: "add_mset ?par (mset (siftdown_loop heap startpos newitem pos)) =
          add_mset newitem (mset (heap[pos := ?par]))"
      using pp by (simp add: res)
    have b: "add_mset (heap ! pos) (mset (heap[pos := ?par])) = add_mset ?par (mset heap)"
      using "1.prems" by (rule mset_update_add)
    have "add_mset ?par (add_mset (heap ! pos) (mset (siftdown_loop heap startpos newitem pos))) =
          add_mset ?par (add_mset newitem (mset heap))"
      using a b by (metis add_mset_commute)
    then show ?thesis by simp
  qed
qed

lemma mset_heappush: "mset (heappush heap item) = add_mset item (mset heap)"
proof -
  have "add_mset ((heap @ [item]) ! length heap)
          (mset (siftdown_loop (heap @ [item]) 0 ((heap @ [item]) ! length heap) (length heap))) =
        add_mset ((heap @ [item]) ! length heap) (mset (heap @ [item]))"
    by (intro mset_siftdown_loop) simp
  then show ?thesis by (simp add: heappush_def siftdown_def)
qed

lemma siftup_loop_props:
  "pos < length heap \<Longrightarrow> siftup_loop heap pos = (heap', pos') \<Longrightarrow>
   length heap' = length heap \<and> pos' < length heap \<and> pos \<le> pos' \<and>
   length heap \<le> 2 * pos' + 1 \<and>
   add_mset (heap ! pos) (mset heap') = add_mset (heap' ! pos') (mset heap)"
proof (induction heap pos arbitrary: heap' pos' rule: siftup_loop.induct)
  case (1 heap pos)
  let ?cp = "2 * pos + 1"
  show ?case
  proof (cases "?cp < length heap")
    case False
    then have "siftup_loop heap pos = (heap, pos)"
      by (subst siftup_loop.simps) (simp add: Let_def)
    with "1.prems" False show ?thesis by auto
  next
    case True
    define cp' where "cp' = (if ?cp + 1 < length heap \<and> \<not> node_lt (heap ! ?cp) (heap ! (?cp + 1))
                             then ?cp + 1 else ?cp)"
    have cp': "cp' < length heap" "pos < cp'" "cp' \<noteq> pos"
      using True by (auto simp: cp'_def)
    have res: "siftup_loop heap pos = siftup_loop (heap[pos := heap ! cp']) cp'"
      using True by (subst siftup_loop.simps) (simp add: Let_def cp'_def)
    with "1.prems" have r: "siftup_loop (heap[pos := heap ! cp']) cp' = (heap', pos')" by simp
    have IH: "length heap' = length (heap[pos := heap ! cp']) \<and>
        pos' < length (heap[pos := heap ! cp']) \<and> cp' \<le> pos' \<and>
        length (heap[pos := heap ! cp']) \<le> 2 * pos' + 1 \<and>
        add_mset ((heap[pos := heap ! cp']) ! cp') (mset heap') =
        add_mset (heap' ! pos') (mset (heap[pos := heap ! cp']))"
      using "1.IH"[OF refl True refl cp'_def _ r] cp' by simp
    then have a: "add_mset (heap ! cp') (mset heap') =
        add_mset (heap' ! pos') (mset (heap[pos := heap ! cp']))"
      using cp' by simp
    have b: "add_mset (heap ! pos) (mset (heap[pos := heap ! cp'])) =
        add_mset (heap ! cp') (mset heap)"
      using "1.prems"(1) by (rule mset_update_add)
    have "add_mset (heap ! cp') (add_mset (heap ! pos) (mset heap')) =
          add_mset (heap ! cp') (add_mset (heap' ! pos') (mset heap))"
      using a b by (metis add_mset_commute)
    then have "add_mset (heap ! pos) (mset heap') = add_mset (heap' ! pos') (mset heap)"
      by simp
    with IH cp' show ?thesis by simp
  qed
qed

lemma mset_siftup:
  assumes "pos < length heap"
  shows "mset (siftup heap pos) = mset heap" "length (siftup heap pos) = length heap"
proof -
  obtain heap' pos' where r: "siftup_loop heap pos = (heap', pos')"
    by (cases "siftup_loop heap pos") auto
  from siftup_loop_props[OF assms r]
  have p: "length heap' = length heap" "pos' < length heap"
    "add_mset (heap ! pos) (mset heap') = add_mset (heap' ! pos') (mset heap)"
    by simp_all
  let ?h = "heap'[pos' := heap ! pos]"
  have res: "siftup heap pos = siftdown_loop ?h pos (heap ! pos) pos'"
    using p by (simp add: siftup_def r Let_def siftdown_def)
  have "add_mset (?h ! pos') (mset (siftdown_loop ?h pos (heap ! pos) pos')) =
        add_mset (heap ! pos) (mset ?h)"
    using p by (intro mset_siftdown_loop) simp
  then have a: "mset (siftup heap pos) = mset ?h" using p by (simp add: res)
  have "add_mset (heap' ! pos') (mset ?h) = add_mset (heap ! pos) (mset heap')"
    using p by (intro mset_update_add) simp
  with p(3) have "add_mset (heap' ! pos') (mset ?h) = add_mset (heap' ! pos') (mset heap)"
    by simp
  then show "mset (siftup heap pos) = mset heap" using a by simp
  show "length (siftup heap pos) = length heap" using p by (simp add: res)
qed

lemma heappop_Inr:
  "heap \<noteq> [] \<Longrightarrow> \<exists>rest. heappop heap = Inr (heap ! 0, rest) \<and>
     mset heap = add_mset (heap ! 0) (mset rest)"
proof -
  assume ne: "heap \<noteq> []"
  then obtain xs x where h: "heap = xs @ [x]" by (metis rev_exhaust)
  show ?thesis
  proof (cases "xs = []")
    case True
    then show ?thesis by (simp add: h heappop_def)
  next
    case False
    then have len: "0 < length xs" by simp
    have "mset (siftup (xs[0 := x]) 0) = mset (xs[0 := x])"
      using len by (intro mset_siftup) simp
    moreover have "add_mset (xs ! 0) (mset (xs[0 := x])) = add_mset x (mset xs)"
      using len by (rule mset_update_add)
    ultimately have "mset heap = add_mset (xs ! 0) (mset (siftup (xs[0 := x]) 0))"
      by (simp add: h)
    then show ?thesis using False len by (simp add: h heappop_def nth_append)
  qed
qed

lemma heappop_empty: "heappop [] = Inl IndexError"
  by (simp add: heappop_def)

subsection \<open>The heap functions keep the heap invariant\<close>

lemma heap_child_cases:
  "0 < i \<Longrightarrow> (i - 1) div 2 = pos \<Longrightarrow> i = 2 * pos + 1 \<or> i = 2 * pos + (2::nat)"
  by (cases i) auto

lemma heap_parent_less: "0 < i \<Longrightarrow> (i - 1) div 2 < (i::nat)"
  by (cases i) auto

lemma siftdown_loop_heap_ok:
  "pos < length heap \<Longrightarrow>
   \<forall>i<length heap. 0 < i \<and> i \<noteq> pos \<and> (i - 1) div 2 \<noteq> pos \<longrightarrow>
      node_le (heap ! ((i - 1) div 2)) (heap ! i) \<Longrightarrow>
   \<forall>i<length heap. 0 < i \<and> (i - 1) div 2 = pos \<longrightarrow> node_le newitem (heap ! i) \<Longrightarrow>
   \<forall>i<length heap. 0 < i \<and> (i - 1) div 2 = pos \<and> 0 < pos \<longrightarrow>
      node_le (heap ! ((pos - 1) div 2)) (heap ! i) \<Longrightarrow>
   startpos = 0 \<Longrightarrow>
   heap_ok (siftdown_loop heap startpos newitem pos)"
proof (induction heap startpos newitem pos rule: siftdown_loop.induct)
  case (1 heap startpos newitem pos)
  note len = "1.prems"(1) and e1 = "1.prems"(2) and e2 = "1.prems"(3) and e3 = "1.prems"(4)
    and s0 = "1.prems"(5)
  let ?pp = "(pos - 1) div 2"
  let ?par = "heap ! ?pp"
  show ?case
  proof (cases "0 < pos \<and> node_lt newitem ?par")
    case False
    then have res: "siftdown_loop heap startpos newitem pos = heap[pos := newitem]"
      by (subst siftdown_loop.simps) (auto simp: Let_def s0)
    have "node_le ((heap[pos := newitem]) ! ((i - 1) div 2)) ((heap[pos := newitem]) ! i)"
      if i: "i < length heap" "0 < i" for i
    proof -
      have pl: "(i - 1) div 2 < i" using i(2) by (rule heap_parent_less)
      consider "i = pos" | "i \<noteq> pos" "(i - 1) div 2 = pos" | "i \<noteq> pos" "(i - 1) div 2 \<noteq> pos"
        by blast
      then show ?thesis
      proof cases
        case 1
        with False i pl have "node_le ?par newitem" by (simp add: node_le_def)
        with 1 i pl show ?thesis by simp
      next
        case 2
        with e2 i have "node_le newitem (heap ! i)" by simp
        with 2 i len show ?thesis by simp
      next
        case 3
        with e1 i have "node_le (heap ! ((i - 1) div 2)) (heap ! i)" by simp
        with 3 show ?thesis by simp
      qed
    qed
    then show ?thesis by (simp add: res heap_ok_def)
  next
    case True
    then have pos: "0 < pos" and lt: "node_lt newitem ?par" by simp_all
    have pp: "?pp < pos" using pos by (rule heap_parent_less)
    let ?h1 = "heap[pos := ?par]"
    have res: "siftdown_loop heap startpos newitem pos = siftdown_loop ?h1 startpos newitem ?pp"
      using True by (subst siftdown_loop.simps) (simp add: Let_def s0)
    have le_new: "node_le newitem ?par" using lt by (rule node_lt_le)
    have a1: "\<forall>i<length ?h1. 0 < i \<and> i \<noteq> ?pp \<and> (i - 1) div 2 \<noteq> ?pp \<longrightarrow>
        node_le (?h1 ! ((i - 1) div 2)) (?h1 ! i)"
    proof (intro allI impI)
      fix i assume "i < length ?h1" and c: "0 < i \<and> i \<noteq> ?pp \<and> (i - 1) div 2 \<noteq> ?pp"
      then have i: "i < length heap" "0 < i" by simp_all
      have pl: "(i - 1) div 2 < i" using i(2) by (rule heap_parent_less)
      from c have ne: "i \<noteq> pos" by auto
      show "node_le (?h1 ! ((i - 1) div 2)) (?h1 ! i)"
      proof (cases "(i - 1) div 2 = pos")
        case True
        with e3 i pos have "node_le ?par (heap ! i)" by simp
        with True ne len show ?thesis by simp
      next
        case False
        with e1 i ne have "node_le (heap ! ((i - 1) div 2)) (heap ! i)" by simp
        with False ne show ?thesis by simp
      qed
    qed
    have sib: "node_le ?par (heap ! i)" if "i < length heap" "0 < i" "(i - 1) div 2 = ?pp" "i \<noteq> pos" for i
      using e1 that pp by auto
    have a2: "\<forall>i<length ?h1. 0 < i \<and> (i - 1) div 2 = ?pp \<longrightarrow> node_le newitem (?h1 ! i)"
    proof (intro allI impI)
      fix i assume "i < length ?h1" and c: "0 < i \<and> (i - 1) div 2 = ?pp"
      then have i: "i < length heap" "0 < i" "(i - 1) div 2 = ?pp" by simp_all
      show "node_le newitem (?h1 ! i)"
      proof (cases "i = pos")
        case True
        then show ?thesis using le_new len by simp
      next
        case False
        then show ?thesis using node_le_trans[OF le_new sib[OF i False]] by simp
      qed
    qed
    have a3: "\<forall>i<length ?h1. 0 < i \<and> (i - 1) div 2 = ?pp \<and> 0 < ?pp \<longrightarrow>
        node_le (?h1 ! ((?pp - 1) div 2)) (?h1 ! i)"
    proof (intro allI impI)
      fix i assume "i < length ?h1" and c: "0 < i \<and> (i - 1) div 2 = ?pp \<and> 0 < ?pp"
      then have i: "i < length heap" "0 < i" "(i - 1) div 2 = ?pp" and pp0: "0 < ?pp"
        by simp_all
      have gl: "(?pp - 1) div 2 < ?pp" using pp0 by (rule heap_parent_less)
      have "node_le (heap ! ((?pp - 1) div 2)) ?par"
        using e1 pp pp0 gl len by auto
      moreover have "node_le ?par (?h1 ! i)"
      proof (cases "i = pos")
        case True
        then show ?thesis using len by (simp add: node_le_refl)
      next
        case False
        then show ?thesis using sib[OF i False] by simp
      qed
      ultimately have "node_le (heap ! ((?pp - 1) div 2)) (?h1 ! i)" by (rule node_le_trans)
      then show "node_le (?h1 ! ((?pp - 1) div 2)) (?h1 ! i)" using gl pp by simp
    qed
    have "heap_ok (siftdown_loop ?h1 startpos newitem ?pp)"
      using True pp len s0 by (intro "1.IH"[OF _ refl refl _ _ a1 a2 a3]) simp_all
    then show ?thesis by (simp add: res)
  qed
qed

lemma heap_ok_butlast: "heap_ok (xs @ [x]) \<Longrightarrow> heap_ok xs"
  unfolding heap_ok_def
proof (intro allI impI)
  fix i assume a: "\<forall>i<length (xs @ [x]). 0 < i \<longrightarrow> node_le ((xs @ [x]) ! ((i - 1) div 2)) ((xs @ [x]) ! i)"
    and i: "i < length xs" "0 < i"
  have "(i - 1) div 2 < i" using i(2) by (rule heap_parent_less)
  with a i show "node_le (xs ! ((i - 1) div 2)) (xs ! i)"
    by (auto simp: nth_append dest!: spec[of _ i])
qed

lemma heappush_heap_ok:
  assumes "heap_ok heap"
  shows "heap_ok (heappush heap item)"
proof -
  let ?h = "heap @ [item]"
  have 1: "\<forall>i<length ?h. 0 < i \<and> i \<noteq> length heap \<and> (i - 1) div 2 \<noteq> length heap \<longrightarrow>
      node_le (?h ! ((i - 1) div 2)) (?h ! i)"
  proof (intro allI impI)
    fix i assume "i < length ?h" and c: "0 < i \<and> i \<noteq> length heap \<and> (i - 1) div 2 \<noteq> length heap"
    then have i: "i < length heap" "0 < i" by simp_all
    have "(i - 1) div 2 < i" using i(2) by (rule heap_parent_less)
    with assms i show "node_le (?h ! ((i - 1) div 2)) (?h ! i)"
      by (simp add: heap_ok_def nth_append)
  qed
  have no_child: "\<not> (i < length ?h \<and> 0 < i \<and> (i - 1) div 2 = length heap)" for i
    by (cases i) auto
  have "heap_ok (siftdown_loop ?h 0 item (length heap))"
    using no_child by (intro siftdown_loop_heap_ok 1) auto
  then show ?thesis by (simp add: heappush_def siftdown_def)
qed

lemma heap_ok_min: "heap_ok xs \<Longrightarrow> i < length xs \<Longrightarrow> node_le (xs ! 0) (xs ! i)"
proof (induction i rule: less_induct)
  case (less i)
  show ?case
  proof (cases "i = 0")
    case True
    then show ?thesis by (simp add: node_le_refl)
  next
    case False
    then have i: "0 < i" by simp
    have pl: "(i - 1) div 2 < i" using i by (rule heap_parent_less)
    have "node_le (xs ! 0) (xs ! ((i - 1) div 2))"
      using less.prems pl by (intro less.IH) simp_all
    moreover have "node_le (xs ! ((i - 1) div 2)) (xs ! i)"
      using less.prems i by (simp add: heap_ok_def)
    ultimately show ?thesis by (rule node_le_trans)
  qed
qed

lemma siftup_loop_heap_ok:
  "pos < length heap \<Longrightarrow>
   \<forall>i<length heap. 0 < i \<and> (i - 1) div 2 \<noteq> pos \<longrightarrow>
      node_le (heap ! ((i - 1) div 2)) (heap ! i) \<Longrightarrow>
   \<forall>i<length heap. 0 < i \<and> (i - 1) div 2 = pos \<and> 0 < pos \<longrightarrow>
      node_le (heap ! ((pos - 1) div 2)) (heap ! i) \<Longrightarrow>
   siftup_loop heap pos = (heap', pos') \<Longrightarrow>
   heap_ok heap'"
proof (induction heap pos arbitrary: heap' pos' rule: siftup_loop.induct)
  case (1 heap pos)
  note len = "1.prems"(1) and b = "1.prems"(2) and c = "1.prems"(3) and r = "1.prems"(4)
  let ?cp = "2 * pos + 1"
  show ?case
  proof (cases "?cp < length heap")
    case False
    then have "siftup_loop heap pos = (heap, pos)"
      by (subst siftup_loop.simps) (simp add: Let_def)
    with r have eq: "heap' = heap" by simp
    have "node_le (heap ! ((i - 1) div 2)) (heap ! i)" if i: "i < length heap" "0 < i" for i
    proof -
      have "(i - 1) div 2 \<noteq> pos"
        using heap_child_cases[OF i(2), of pos] i(1) False by auto
      with b i show ?thesis by simp
    qed
    then show ?thesis by (simp add: eq heap_ok_def)
  next
    case True
    define cp' where "cp' = (if ?cp + 1 < length heap \<and> \<not> node_lt (heap ! ?cp) (heap ! (?cp + 1))
                             then ?cp + 1 else ?cp)"
    have cp': "cp' < length heap" "pos < cp'" "0 < cp'" "(cp' - 1) div 2 = pos"
      using True by (auto simp: cp'_def)
    let ?h1 = "heap[pos := heap ! cp']"
    have res: "siftup_loop heap pos = siftup_loop ?h1 cp'"
      using True by (subst siftup_loop.simps) (simp add: Let_def cp'_def)
    with r have r1: "siftup_loop ?h1 cp' = (heap', pos')" by simp
    have choice: "node_le (heap ! cp') (heap ! i)"
      if i: "i < length heap" "0 < i" "(i - 1) div 2 = pos" for i
    proof -
      from heap_child_cases[OF i(2,3)] have "i = ?cp \<or> i = ?cp + 1" by auto
      then show ?thesis
      proof
        assume "i = ?cp"
        then show ?thesis
          by (auto simp: cp'_def node_le_refl intro: not_node_lt_le)
      next
        assume "i = ?cp + 1"
        then show ?thesis using i(1)
          by (auto simp: cp'_def node_le_refl intro: node_lt_le)
      qed
    qed
    have b1: "\<forall>i<length ?h1. 0 < i \<and> (i - 1) div 2 \<noteq> cp' \<longrightarrow>
        node_le (?h1 ! ((i - 1) div 2)) (?h1 ! i)"
    proof (intro allI impI)
      fix i assume "i < length ?h1" and h: "0 < i \<and> (i - 1) div 2 \<noteq> cp'"
      then have i: "i < length heap" "0 < i" by simp_all
      have pl: "(i - 1) div 2 < i" using i(2) by (rule heap_parent_less)
      consider "(i - 1) div 2 = pos" | "i = pos" "(i - 1) div 2 \<noteq> pos"
        | "i \<noteq> pos" "(i - 1) div 2 \<noteq> pos" by blast
      then show "node_le (?h1 ! ((i - 1) div 2)) (?h1 ! i)"
      proof cases
        case 1
        then have "i \<noteq> pos" using pl by simp
        with 1 choice[OF i 1] len show ?thesis by simp
      next
        case 2
        have "node_le (heap ! ((pos - 1) div 2)) (heap ! cp')"
          using c cp' 2 i by auto
        with 2 len show ?thesis by simp
      next
        case 3
        with b i have "node_le (heap ! ((i - 1) div 2)) (heap ! i)" by simp
        with 3 show ?thesis by simp
      qed
    qed
    have c1: "\<forall>i<length ?h1. 0 < i \<and> (i - 1) div 2 = cp' \<and> 0 < cp' \<longrightarrow>
        node_le (?h1 ! ((cp' - 1) div 2)) (?h1 ! i)"
    proof (intro allI impI)
      fix i assume "i < length ?h1" and h: "0 < i \<and> (i - 1) div 2 = cp' \<and> 0 < cp'"
      then have i: "i < length heap" "0 < i" "(i - 1) div 2 = cp'" by simp_all
      have pl: "(i - 1) div 2 < i" using i(2) by (rule heap_parent_less)
      have "node_le (heap ! cp') (heap ! i)" using b i cp' by auto
      moreover have "i \<noteq> pos" using pl i(3) cp'(2) by simp
      ultimately show "node_le (?h1 ! ((cp' - 1) div 2)) (?h1 ! i)"
        using cp' len by simp
    qed
    show ?thesis
      using "1.IH"[OF refl True refl cp'_def _ b1 c1 r1] cp' by simp
  qed
qed

lemma siftup_root_heap_ok:
  assumes "heap_ok xs" "xs \<noteq> []"
  shows "heap_ok (siftup (xs[0 := x]) 0)"
proof -
  let ?h = "xs[0 := x]"
  have len: "0 < length ?h" using assms(2) by simp
  obtain heap' pos' where r: "siftup_loop ?h 0 = (heap', pos')"
    by (cases "siftup_loop ?h 0") auto
  from siftup_loop_props[OF len r]
  have p: "length heap' = length xs" "pos' < length xs" "length xs \<le> 2 * pos' + 1"
    by simp_all
  have b: "\<forall>i<length ?h. 0 < i \<and> (i - 1) div 2 \<noteq> 0 \<longrightarrow>
      node_le (?h ! ((i - 1) div 2)) (?h ! i)"
    using assms(1) by (auto simp: heap_ok_def)
  have ok': "heap_ok heap'"
    using len b _ r by (rule siftup_loop_heap_ok) simp
  let ?h2 = "heap'[pos' := x]"
  have no_child: "\<not> (i < length ?h2 \<and> 0 < i \<and> (i - 1) div 2 = pos')" for i
    using heap_child_cases[of i pos'] p by auto
  have 1: "\<forall>i<length ?h2. 0 < i \<and> i \<noteq> pos' \<and> (i - 1) div 2 \<noteq> pos' \<longrightarrow>
      node_le (?h2 ! ((i - 1) div 2)) (?h2 ! i)"
    using ok' by (auto simp: heap_ok_def)
  have "heap_ok (siftdown_loop ?h2 0 x pos')"
    using no_child p by (intro siftdown_loop_heap_ok 1) auto
  moreover have "siftup ?h 0 = siftdown_loop ?h2 0 x pos'"
    using p len by (simp add: siftup_def r Let_def siftdown_def)
  ultimately show ?thesis by simp
qed

lemma heappop_heap_ok:
  assumes "heap_ok heap" "heappop heap = Inr (x, rest)"
  shows "heap_ok rest"
proof -
  from assms(2) have ne: "heap \<noteq> []" by (auto simp: heappop_def)
  then obtain xs y where h: "heap = xs @ [y]" by (metis rev_exhaust)
  have okxs: "heap_ok xs" using assms(1) unfolding h by (rule heap_ok_butlast)
  show ?thesis
  proof (cases "xs = []")
    case True
    with assms(2) show ?thesis by (simp add: h heappop_def heap_ok_def)
  next
    case False
    with assms(2) have "rest = siftup (xs[0 := y]) 0" by (simp add: h heappop_def)
    with siftup_root_heap_ok[OF okxs False] show ?thesis by simp
  qed
qed

lemma heappop_min:
  assumes "heap_ok heap" "heappop heap = Inr (x, rest)"
  shows "x \<in> set heap \<and> mset heap = add_mset x (mset rest) \<and> (\<forall>y\<in>set heap. node_le x y)"
proof -
  from assms(2) have ne: "heap \<noteq> []" by (auto simp: heappop_def)
  from heappop_Inr[OF ne] assms(2) have x: "x = heap ! 0" "mset heap = add_mset x (mset rest)"
    by auto
  have "node_le x y" if "y \<in> set heap" for y
  proof -
    from that obtain i where "i < length heap" "y = heap ! i" by (auto simp: in_set_conv_nth)
    with heap_ok_min[OF assms(1)] x show ?thesis by simp
  qed
  moreover have "x \<in> set heap" using x ne by simp
  ultimately show ?thesis using x by blast
qed

lemma set_heappush: "set (heappush heap item) = insert item (set heap)"
  using mset_heappush[of heap item, THEN arg_cong[where f = set_mset]] by simp

lemma length_heappush: "length (heappush heap item) = Suc (length heap)"
  using mset_heappush[of heap item, THEN arg_cong[where f = size]] by simp

subsection \<open>What \<^verbatim>\<open>expand\<close> returns when it returns\<close>

lemma expand_moves_step:
  "expand_moves gp node goal_state hf br bc ((dr, dc, a) # ms) acc =
     (if move_in_bounds (length (state node)) br bc (dr, dc, a) then
        (case swap_cells (state node) br bc (nat (int br + dr)) (nat (int bc + dc)) of
           Inl e \<Rightarrow> Inl e
         | Inr new_state \<Rightarrow>
             (case heuristic_call gp hf new_state goal_state of
                Inl e \<Rightarrow> Inl e
              | Inr new_h_cost \<Rightarrow>
                  expand_moves gp node goal_state hf br bc ms
                    (acc @ [PuzzleNode_init new_state (Some node) (Some a)
                              (g_cost node + 1) new_h_cost])))
      else expand_moves gp node goal_state hf br bc ms acc)"
  by (simp add: move_in_bounds_def in_grid_def Let_def)

lemma expand_moves_Inr:
  "expand_moves gp node goal_state hf br bc ms acc = Inr succs \<Longrightarrow>
   m \<in> set ms \<Longrightarrow> move_in_bounds (length (state node)) br bc m \<Longrightarrow>
   \<exists>st' h. swap_cells (state node) br bc (nat (int br + fst m)) (nat (int bc + fst (snd m)))
              = Inr st' \<and> heuristic_call gp hf st' goal_state = Inr h"
proof (induction ms arbitrary: acc)
  case Nil
  then show ?case by simp
next
  case (Cons m' ms)
  obtain dr dc a where m': "m' = (dr, dc, a)" by (cases m') auto
  show ?case
  proof (cases "move_in_bounds (length (state node)) br bc m'")
    case False
    then have "expand_moves gp node goal_state hf br bc (m' # ms) acc =
        expand_moves gp node goal_state hf br bc ms acc"
      unfolding m' expand_moves_step by simp
    with Cons.prems False have "expand_moves gp node goal_state hf br bc ms acc = Inr succs"
      "m \<in> set ms" by auto
    then show ?thesis using Cons.prems(3) by (rule Cons.IH)
  next
    case True
    then have step: "expand_moves gp node goal_state hf br bc (m' # ms) acc =
      (case swap_cells (state node) br bc (nat (int br + dr)) (nat (int bc + dc)) of
         Inl e \<Rightarrow> Inl e
       | Inr new_state \<Rightarrow>
           (case heuristic_call gp hf new_state goal_state of
              Inl e \<Rightarrow> Inl e
            | Inr new_h_cost \<Rightarrow>
                expand_moves gp node goal_state hf br bc ms
                  (acc @ [PuzzleNode_init new_state (Some node) (Some a)
                            (g_cost node + 1) new_h_cost])))"
      unfolding m' expand_moves_step by simp
    from Cons.prems(1) obtain st' h where
      s: "swap_cells (state node) br bc (nat (int br + dr)) (nat (int bc + dc)) = Inr st'"
      and h: "heuristic_call gp hf st' goal_state = Inr h"
      and r: "expand_moves gp node goal_state hf br bc ms
                (acc @ [PuzzleNode_init st' (Some node) (Some a) (g_cost node + 1) h]) = Inr succs"
      unfolding step by (auto split: sum.splits)
    show ?thesis
    proof (cases "m = m'")
      case True
      with s h show ?thesis by (auto simp: m')
    next
      case False
      with Cons.prems(2) have "m \<in> set ms" by simp
      with r show ?thesis using Cons.prems(3) by (rule Cons.IH)
    qed
  qed
qed

lemma expand_Inr:
  assumes "expand gp node goal_state hf = Inr succs"
  shows "\<exists>br bc. find_blank (state node) = Inr (Some (br, bc)) \<and>
     succs = map (child_node gp hf goal_state node br bc)
               (filter (move_in_bounds (length (state node)) br bc) moves) \<and>
     (\<forall>m\<in>set moves. move_in_bounds (length (state node)) br bc m \<longrightarrow>
        (\<exists>st' h. swap_cells (state node) br bc (nat (int br + fst m)) (nat (int bc + fst (snd m)))
                   = Inr st' \<and> heuristic_call gp hf st' goal_state = Inr h))"
proof -
  from assms obtain br bc where b: "find_blank (state node) = Inr (Some (br, bc))"
    and e: "expand_moves gp node goal_state hf br bc moves [] = Inr succs"
    by (auto simp: expand_def split: sum.splits option.splits)
  have ok: "\<forall>m\<in>set moves. move_in_bounds (length (state node)) br bc m \<longrightarrow>
        (\<exists>st' h. swap_cells (state node) br bc (nat (int br + fst m)) (nat (int bc + fst (snd m)))
                   = Inr st' \<and> heuristic_call gp hf st' goal_state = Inr h)"
    using expand_moves_Inr[OF e] by blast
  from expand_moves_ok[OF refl ok, of "[]"] e
  have "succs = map (child_node gp hf goal_state node br bc)
               (filter (move_in_bounds (length (state node)) br bc) moves)" by simp
  with b ok show ?thesis by blast
qed

lemma moves_adjacent:
  assumes "m \<in> set moves" "move_in_bounds n br bc m"
  shows "(br = nat (int br + fst m) \<and>
           (bc = Suc (nat (int bc + fst (snd m))) \<or> nat (int bc + fst (snd m)) = Suc bc)) \<or>
         (bc = nat (int bc + fst (snd m)) \<and>
           (br = Suc (nat (int br + fst m)) \<or> nat (int br + fst m) = Suc br))"
  using assms by (auto simp: moves_def move_in_bounds_def in_grid_def)

lemma expand_successor:
  assumes "expand gp node goal_state hf = Inr succs" "s \<in> set succs"
  shows "adjacent_swap (state node) (state s) \<and> parent s = Some node \<and>
         g_cost s = g_cost node + 1 \<and> f_cost s = g_cost s + h_cost s \<and>
         heuristic_call gp hf (state s) goal_state = Inr (h_cost s)"
proof -
  let ?st = "state node"
  from expand_Inr[OF assms(1)] obtain br bc where
    b: "find_blank ?st = Inr (Some (br, bc))"
    and succs: "succs = map (child_node gp hf goal_state node br bc)
               (filter (move_in_bounds (length ?st) br bc) moves)"
    and ok: "\<forall>m\<in>set moves. move_in_bounds (length ?st) br bc m \<longrightarrow>
        (\<exists>st' h. swap_cells ?st br bc (nat (int br + fst m)) (nat (int bc + fst (snd m)))
                   = Inr st' \<and> heuristic_call gp hf st' goal_state = Inr h)"
    by blast
  from assms(2) succs obtain m where m: "m \<in> set moves" "move_in_bounds (length ?st) br bc m"
    and s: "s = child_node gp hf goal_state node br bc m" by auto
  let ?nr = "nat (int br + fst m)" and ?nc = "nat (int bc + fst (snd m))"
  from ok m obtain st' h where sw: "swap_cells ?st br bc ?nr ?nc = Inr st'"
    and h: "heuristic_call gp hf st' goal_state = Inr h" by blast
  from swap_cells_Inr[OF sw] have idx: "br < length ?st" "bc < length (?st ! br)"
    "?nr < length ?st" "?nc < length (?st ! ?nr)" and st': "st' = swapped ?st (br, bc) (?nr, ?nc)"
    by simp_all
  from find_blank_Some[OF b] have blank: "bc < length ?st" "?st ! br ! bc = 0" by simp_all
  have nc: "?nc < length ?st" using move_target_in_range[OF m(2)] by simp
  have "adjacent_swap ?st (swapped ?st (br, bc) (?nr, ?nc))"
    unfolding adjacent_swap_def
    using idx blank nc moves_adjacent[OF m]
    by (intro bexI[of _ br] bexI[of _ bc] bexI[of _ ?nr] bexI[of _ ?nc]) simp_all
  moreover have "heuristic_call gp hf (state s) goal_state = Inr (h_cost s)"
    using h by (simp add: s child_node_def Let_def PuzzleNode_init_def st'[symmetric])
  ultimately show ?thesis by (simp add: s child_node_fields)
qed

subsection \<open>One pass of the search loop\<close>

lemma push_successors_foldl:
  "push_successors fr ex succs =
     foldl heappush fr (filter (\<lambda>c. state_to_tuple (state c) \<notin> ex) succs)"
  by (induction succs arbitrary: fr) simp_all

lemma mset_foldl_heappush: "mset (foldl heappush fr xs) = mset fr + mset xs"
  by (induction xs arbitrary: fr) (simp_all add: mset_heappush)

lemma heap_ok_foldl_heappush: "heap_ok fr \<Longrightarrow> heap_ok (foldl heappush fr xs)"
  by (induction xs arbitrary: fr) (simp_all add: heappush_heap_ok)

lemma search_iteration_Continue:
  assumes "search_iteration gp goal_state hf s = Continue s'"
  shows "\<exists>node fr. heappop (frontier s) = Inr (node, fr) \<and> state node \<noteq> goal_state \<and>
     max_queue_size s' = max (max_queue_size s) (int (length (frontier s))) \<and>
     ((state node \<in> explored s \<and> frontier s' = fr \<and> explored s' = explored s \<and>
       expanded_count s' = expanded_count s) \<or>
      (state node \<notin> explored s \<and>
       (\<exists>succs. expand gp node goal_state hf = Inr succs \<and>
          frontier s' = foldl heappush fr
             (filter (\<lambda>c. state c \<notin> insert (state node) (explored s)) succs) \<and>
          explored s' = insert (state node) (explored s) \<and>
          expanded_count s' = expanded_count s + 1)))"
  using assms
  by (auto simp: search_iteration_def Let_def goal_test_def state_to_tuple_def
        push_successors_foldl split: sum.splits if_splits)

lemma search_iteration_Return:
  assumes "search_iteration gp goal_state hf s = Return r"
  shows "\<exists>node fr. heappop (frontier s) = Inr (node, fr) \<and> state node = goal_state \<and>
     r = (Some node, expanded_count s, max (max_queue_size s) (int (length (frontier s))))"
  using assms
  by (auto simp: search_iteration_def Let_def goal_test_def split: sum.splits if_splits)

lemma search_iteration_Raise:
  assumes "search_iteration gp goal_state hf s = Raise e" "frontier s \<noteq> []"
  shows "\<exists>node fr. heappop (frontier s) = Inr (node, fr) \<and> state node \<noteq> goal_state \<and>
     state node \<notin> explored s \<and> expand gp node goal_state hf = Inl e"
proof -
  from heappop_Inr[OF assms(2)] obtain fr where "heappop (frontier s) = Inr (frontier s ! 0, fr)"
    by blast
  with assms(1) show ?thesis
    by (auto simp: search_iteration_def Let_def goal_test_def state_to_tuple_def
          split: sum.splits if_splits)
qed

lemma search_run_invariant:
  assumes "search_run k gp goal_state hf s0 = Some s" "P s0"
    "\<And>s s'. P s \<Longrightarrow> frontier s \<noteq> [] \<Longrightarrow> search_iteration gp goal_state hf s = Continue s' \<Longrightarrow> P s'"
  shows "P s"
  using assms(1,2)
proof (induction k arbitrary: s0)
  case 0
  then show ?case by simp
next
  case (Suc k)
  from Suc.prems(1) obtain s1 where ne: "frontier s0 \<noteq> []"
    and it: "search_iteration gp goal_state hf s0 = Continue s1"
    and run: "search_run k gp goal_state hf s1 = Some s"
    by (auto split: if_splits step_result.splits)
  from assms(3)[OF Suc.prems(2) ne it] have "P s1" .
  with run show ?case by (rule Suc.IH)
qed

lemma search_iteration_heap_ok:
  assumes "heap_ok (frontier s)" "search_iteration gp goal_state hf s = Continue s'"
  shows "heap_ok (frontier s')"
proof -
  from search_iteration_Continue[OF assms(2)] obtain node fr where
    pop: "heappop (frontier s) = Inr (node, fr)"
    and cases: "frontier s' = fr \<or>
       (\<exists>succs. frontier s' = foldl heappush fr
             (filter (\<lambda>c. state c \<notin> insert (state node) (explored s)) succs))"
    by blast
  have "heap_ok fr" using assms(1) pop by (rule heappop_heap_ok)
  with cases show ?thesis by (auto simp: heap_ok_foldl_heappush)
qed

lemma heap_ok_initial: "heap_ok (frontier (initial_search_state init h0))"
  by (simp add: initial_search_state_def heapify_singleton heap_ok_def)

lemma search_run_heap_ok:
  "search_run k gp goal_state hf (initial_search_state init h0) = Some s \<Longrightarrow> heap_ok (frontier s)"
  by (erule search_run_invariant[where P = "\<lambda>s. heap_ok (frontier s)"])
     (simp_all add: heap_ok_initial search_iteration_heap_ok)

text \<open>
  Claim C4. In a pass of the search loop whose popped node is not the goal: when the
  node's state is already in the explored set, the node is dropped: the explored set
  and the expansion counter stay as they were, and the frontier is what the pop left.
  Otherwise the state is added to the explored set, the counter goes up by exactly one,
  \<^verbatim>\<open>expand\<close> is called, and the successors pushed on the frontier are exactly those
  whose state is not in the (new) explored set, pushed in the order \<^verbatim>\<open>expand\<close> returned
  them. An exception of \<^verbatim>\<open>expand\<close> leaves the function; for a Configuration
  \<^verbatim>\<open>expand\<close> always returns (\<open>expand_configuration\<close>).
\<close>

theorem search_iteration_spec:
  assumes "heappop (frontier s) = Inr (node, fr)" "state node \<noteq> goal_state"
  shows "(state_to_tuple (state node) \<in> explored s \<longrightarrow>
           (\<exists>s'. search_iteration gp goal_state hf s = Continue s' \<and> frontier s' = fr \<and>
                 explored s' = explored s \<and> expanded_count s' = expanded_count s)) \<and>
         (state_to_tuple (state node) \<notin> explored s \<longrightarrow>
           (\<forall>succs. expand gp node goal_state hf = Inr succs \<longrightarrow>
             (\<exists>s'. search_iteration gp goal_state hf s = Continue s' \<and>
                explored s' = insert (state_to_tuple (state node)) (explored s) \<and>
                expanded_count s' = expanded_count s + 1 \<and>
                frontier s' = foldl heappush fr
                  (filter (\<lambda>c. state_to_tuple (state c) \<notin> explored s') succs) \<and>
                mset (frontier s') =
                  mset fr + mset (filter (\<lambda>c. state_to_tuple (state c) \<notin> explored s') succs))))"
  using assms
  by (simp add: search_iteration_def Let_def goal_test_def push_successors_foldl
        mset_foldl_heappush)

theorem search_iteration_spec_witness:
  "heappop (frontier (initial_search_state [[1, 2, 3], [4, 5, 0], [7, 8, 6]] 1)) =
     Inr (PuzzleNode_init [[1, 2, 3], [4, 5, 0], [7, 8, 6]] None None 0 1, []) \<and>
   state (PuzzleNode_init [[1, 2, 3], [4, 5, 0], [7, 8, 6]] None None 0 1) \<noteq>
     [[1, 2, 3], [4, 5, 6], [7, 8, 0]] \<and>
   state_to_tuple (state (PuzzleNode_init [[1, 2, 3], [4, 5, 0], [7, 8, 6]] None None 0 1)) \<notin>
     explored (initial_search_state [[1, 2, 3], [4, 5, 0], [7, 8, 6]] 1) \<and>
   expand Map.empty (PuzzleNode_init [[1, 2, 3], [4, 5, 0], [7, 8, 6]] None None 0 1)
       [[1, 2, 3], [4, 5, 6], [7, 8, 0]] MisplacedTile =
     Inr (projr (expand Map.empty (PuzzleNode_init [[1, 2, 3], [4, 5, 0], [7, 8, 6]] None None 0 1)
       [[1, 2, 3], [4, 5, 6], [7, 8, 0]] MisplacedTile)) \<and>
   (\<exists>s'. search_iteration Map.empty [[1, 2, 3], [4, 5, 6], [7, 8, 0]] MisplacedTile
            (initial_search_state [[1, 2, 3], [4, 5, 0], [7, 8, 6]] 1) = Continue s' \<and>
      explored s' = {[[1, 2, 3], [4, 5, 0], [7, 8, 6]]} \<and> expanded_count s' = 1)"
proof -
  let ?I = "[[1, 2, 3], [4, 5, 0], [7, 8, 6::int]]"
  let ?G = "[[1, 2, 3], [4, 5, 6], [7, 8, 0::int]]"
  let ?N = "PuzzleNode_init ?I None None 0 1"
  let ?S = "initial_search_state ?I 1"
  have pop: "heappop (frontier ?S) = Inr (?N, [])"
    by (simp add: initial_search_state_def heapify_singleton heappop_singleton)
  have ng: "state ?N \<noteq> ?G" by (simp add: PuzzleNode_init_def)
  have ne: "state_to_tuple (state ?N) \<notin> explored ?S"
    by (simp add: initial_search_state_def)
  have ex: "expand Map.empty ?N ?G MisplacedTile =
      Inr (projr (expand Map.empty ?N ?G MisplacedTile))"
    by code_simp
  from search_iteration_spec[OF pop ng, of Map.empty MisplacedTile] ne ex
  obtain s' where "search_iteration Map.empty ?G MisplacedTile ?S = Continue s'"
    "explored s' = insert (state_to_tuple (state ?N)) (explored ?S)"
    "expanded_count s' = expanded_count ?S + 1"
    by blast
  then have "\<exists>s'. search_iteration Map.empty ?G MisplacedTile ?S = Continue s' \<and>
      explored s' = {?I} \<and> expanded_count s' = 1"
    by (simp add: initial_search_state_def state_to_tuple_def PuzzleNode_init_def)
  with pop ng ne ex show ?thesis by blast
qed

text \<open>
  Claim C2, as the code has it. In every pass of a search run the popped node is a
  least element of the frontier under \<^verbatim>\<open>__lt__\<close>: no frontier node has a smaller
  \<open>f_cost\<close>, and among the frontier nodes with the same \<open>f_cost\<close> none has a smaller
  \<open>g_cost\<close>. So among candidates with equal \<open>f\<close> the tie-break picks a shallowest
  node (lowest \<open>g\<close>), not a deeper one.
\<close>

theorem popped_node_is_least:
  assumes "search_run k gp goal_state hf (initial_search_state init h0) = Some s"
    "heappop (frontier s) = Inr (node, rest)"
  shows "node \<in> set (frontier s) \<and> mset (frontier s) = add_mset node (mset rest) \<and>
     (\<forall>m\<in>set (frontier s).
        f_cost node < f_cost m \<or> (f_cost node = f_cost m \<and> g_cost node \<le> g_cost m))"
proof -
  have "heap_ok (frontier s)" using assms(1) by (rule search_run_heap_ok)
  from heappop_min[OF this assms(2)] show ?thesis by (simp add: node_le_iff)
qed

theorem popped_node_is_least_witness:
  "(search_run 2 (projr (precompute_goal_pos [[1, 2, 3], [4, 5, 6], [7, 8, 0]]))
       [[1, 2, 3], [4, 5, 6], [7, 8, 0]] ManhattanDistance
       (initial_search_state [[1, 3, 5], [4, 2, 0], [7, 8, 6]] 5)) =
     Some (the (search_run 2 (projr (precompute_goal_pos [[1, 2, 3], [4, 5, 6], [7, 8, 0]]))
       [[1, 2, 3], [4, 5, 6], [7, 8, 0]] ManhattanDistance
       (initial_search_state [[1, 3, 5], [4, 2, 0], [7, 8, 6]] 5))) \<and>
   heappop (frontier (the (search_run 2 (projr (precompute_goal_pos [[1, 2, 3], [4, 5, 6], [7, 8, 0]]))
       [[1, 2, 3], [4, 5, 6], [7, 8, 0]] ManhattanDistance
       (initial_search_state [[1, 3, 5], [4, 2, 0], [7, 8, 6]] 5)))) =
     Inr (fst (projr (heappop (frontier (the (search_run 2 (projr (precompute_goal_pos [[1, 2, 3], [4, 5, 6], [7, 8, 0]]))
       [[1, 2, 3], [4, 5, 6], [7, 8, 0]] ManhattanDistance
       (initial_search_state [[1, 3, 5], [4, 2, 0], [7, 8, 6]] 5)))))),
          snd (projr (heappop (frontier (the (search_run 2 (projr (precompute_goal_pos [[1, 2, 3], [4, 5, 6], [7, 8, 0]]))
       [[1, 2, 3], [4, 5, 6], [7, 8, 0]] ManhattanDistance
       (initial_search_state [[1, 3, 5], [4, 2, 0], [7, 8, 6]] 5))))))) \<and>
   fst (projr (heappop (frontier (the (search_run 2 (projr (precompute_goal_pos [[1, 2, 3], [4, 5, 6], [7, 8, 0]]))
       [[1, 2, 3], [4, 5, 6], [7, 8, 0]] ManhattanDistance
       (initial_search_state [[1, 3, 5], [4, 2, 0], [7, 8, 6]] 5)))))) \<in>
     set (frontier (the (search_run 2 (projr (precompute_goal_pos [[1, 2, 3], [4, 5, 6], [7, 8, 0]]))
       [[1, 2, 3], [4, 5, 6], [7, 8, 0]] ManhattanDistance
       (initial_search_state [[1, 3, 5], [4, 2, 0], [7, 8, 6]] 5))))"
proof -
  let ?run = "(search_run 2 (projr (precompute_goal_pos [[1, 2, 3], [4, 5, 6], [7, 8, 0]]))
       [[1, 2, 3], [4, 5, 6], [7, 8, 0]] ManhattanDistance
       (initial_search_state [[1, 3, 5], [4, 2, 0], [7, 8, 6]] 5))"
  have run: "?run = Some (the ?run)" by code_simp
  have pop: "heappop (frontier (the ?run)) =
      Inr (fst (projr (heappop (frontier (the ?run)))),
           snd (projr (heappop (frontier (the ?run)))))"
    by code_simp
  from popped_node_is_least[OF run pop] run pop show ?thesis by blast
qed

text \<open>
  The claim as stated fails: in the run from \<open>[[1,3,5],[4,2,0],[7,8,6]]\<close> with the
  Manhattan heuristic the frontier after two passes holds nodes with \<open>(f, g)\<close> equal
  to \<open>(5, 1)\<close>, \<open>(7, 1)\<close> and \<open>(5, 2)\<close>, and the third pass pops the node of depth 1,
  leaving the deeper node of the same \<open>f\<close> in the frontier.
\<close>

theorem tie_break_prefers_shallower_counterexample:
  "map f_cost (frontier (the (search_run 2
       (projr (precompute_goal_pos [[1, 2, 3], [4, 5, 6], [7, 8, 0]]))
       [[1, 2, 3], [4, 5, 6], [7, 8, 0]] ManhattanDistance
       (initial_search_state [[1, 3, 5], [4, 2, 0], [7, 8, 6]] 5)))) = [5, 7, 5] \<and>
   map g_cost (frontier (the (search_run 2
       (projr (precompute_goal_pos [[1, 2, 3], [4, 5, 6], [7, 8, 0]]))
       [[1, 2, 3], [4, 5, 6], [7, 8, 0]] ManhattanDistance
       (initial_search_state [[1, 3, 5], [4, 2, 0], [7, 8, 6]] 5)))) = [1, 1, 2] \<and>
   map_sum id (g_cost \<circ> fst) (heappop (frontier (the (search_run 2
       (projr (precompute_goal_pos [[1, 2, 3], [4, 5, 6], [7, 8, 0]]))
       [[1, 2, 3], [4, 5, 6], [7, 8, 0]] ManhattanDistance
       (initial_search_state [[1, 3, 5], [4, 2, 0], [7, 8, 6]] 5))))) = Inr 1 \<and>
   map_sum id (map g_cost \<circ> snd) (heappop (frontier (the (search_run 2
       (projr (precompute_goal_pos [[1, 2, 3], [4, 5, 6], [7, 8, 0]]))
       [[1, 2, 3], [4, 5, 6], [7, 8, 0]] ManhattanDistance
       (initial_search_state [[1, 3, 5], [4, 2, 0], [7, 8, 6]] 5))))) = Inr [2, 1] \<and>
   heuristic_call (projr (precompute_goal_pos [[1, 2, 3], [4, 5, 6], [7, 8, 0]]))
       ManhattanDistance [[1, 3, 5], [4, 2, 0], [7, 8, 6]] [[1, 2, 3], [4, 5, 6], [7, 8, 0]] = Inr 5"
  by code_simp

subsection \<open>Runs of the search loop\<close>

lemma search_run_loop:
  "search_run k gp goal_state hf s0 = Some s \<Longrightarrow>
   search_loop gp goal_state hf s0 = search_loop gp goal_state hf s"
proof (induction k arbitrary: s0)
  case 0
  then show ?case by simp
next
  case (Suc k)
  from Suc.prems obtain s1 where ne: "frontier s0 \<noteq> []"
    and it: "search_iteration gp goal_state hf s0 = Continue s1"
    and run: "search_run k gp goal_state hf s1 = Some s"
    by (auto split: if_splits step_result.splits)
  have "search_loop gp goal_state hf s0 = search_loop gp goal_state hf s1"
    using ne it by (subst search_loop.simps) simp
  with Suc.IH[OF run] show ?case by simp
qed

lemma loop_exit_result:
  "loop_exit gp goal_state hf s r \<Longrightarrow> search_loop gp goal_state hf s = Some r"
  by (subst search_loop.simps)
     (auto simp: loop_exit_def split: if_splits step_result.splits)

lemma search_run_Suc_end:
  "search_run k gp goal_state hf s0 = Some s \<Longrightarrow> frontier s \<noteq> [] \<Longrightarrow>
   search_iteration gp goal_state hf s = Continue s' \<Longrightarrow>
   search_run (Suc k) gp goal_state hf s0 = Some s'"
proof (induction k arbitrary: s0)
  case 0
  then show ?case by simp
next
  case (Suc k)
  from Suc.prems(1) obtain s1 where ne: "frontier s0 \<noteq> []"
    and it: "search_iteration gp goal_state hf s0 = Continue s1"
    and run: "search_run k gp goal_state hf s1 = Some s"
    by (auto split: if_splits step_result.splits)
  from Suc.IH[OF run Suc.prems(2,3)] have "search_run (Suc k) gp goal_state hf s1 = Some s'" .
  then show ?case using ne it by (simp del: search_run.simps(2) add: search_run.simps(2)[of "Suc k"])
qed

lemma search_loop_exit:
  assumes "search_loop gp goal_state hf s0 = Some r"
  shows "\<exists>k s. search_run k gp goal_state hf s0 = Some s \<and> loop_exit gp goal_state hf s r"
proof (rule search_loop.raw_induct[where P = "\<lambda>gp goal_state hf s0 r.
      \<exists>k s. search_run k gp goal_state hf s0 = Some s \<and> loop_exit gp goal_state hf s r",
      OF _ assms])
  fix loop gp goal_state hf s0 r
  assume IH: "\<And>gp goal_state hf s0 r. loop gp goal_state hf s0 = Some r \<Longrightarrow>
      \<exists>k s. search_run k gp goal_state hf s0 = Some s \<and> loop_exit gp goal_state hf s r"
    and body: "(if frontier s0 = [] then Some (Inr (None, expanded_count s0, max_queue_size s0))
      else case search_iteration gp goal_state hf s0 of
             Return r \<Rightarrow> Some (Inr r)
           | Continue s' \<Rightarrow> loop gp goal_state hf s'
           | Raise e \<Rightarrow> Some (Inl e)) = Some r"
  have zero: "search_run 0 gp goal_state hf s0 = Some s0" by simp
  show "\<exists>k s. search_run k gp goal_state hf s0 = Some s \<and> loop_exit gp goal_state hf s r"
  proof (cases "frontier s0 = []")
    case True
    with body have "loop_exit gp goal_state hf s0 r" by (auto simp: loop_exit_def)
    with zero show ?thesis by blast
  next
    case False
    show ?thesis
    proof (cases "search_iteration gp goal_state hf s0")
      case (Continue s1)
      with False body have "loop gp goal_state hf s1 = Some r" by simp
      from IH[OF this] obtain k s where
        ks: "search_run k gp goal_state hf s1 = Some s" "loop_exit gp goal_state hf s r" by blast
      with False Continue have "search_run (Suc k) gp goal_state hf s0 = Some s" by simp
      with ks(2) show ?thesis by blast
    next
      case (Return x)
      with False body have "loop_exit gp goal_state hf s0 r" by (auto simp: loop_exit_def)
      with zero show ?thesis by blast
    next
      case (Raise e)
      with False body have "loop_exit gp goal_state hf s0 r" by (auto simp: loop_exit_def)
      with zero show ?thesis by blast
    qed
  qed
qed

lemma general_search_exit:
  assumes "general_search gp0 init goal_state hf = Some (Inr res)"
  shows "\<exists>gp h0 k s. search_goal_pos gp0 goal_state hf = Inr gp \<and>
     heuristic_call gp hf init goal_state = Inr h0 \<and>
     search_run k gp goal_state hf (initial_search_state init h0) = Some s \<and>
     loop_exit gp goal_state hf s (Inr res)"
proof -
  from assms obtain gp h0 where gp: "search_goal_pos gp0 goal_state hf = Inr gp"
    and h0: "heuristic_call gp hf init goal_state = Inr h0"
    and l: "search_loop gp goal_state hf (initial_search_state init h0) = Some (Inr res)"
    by (auto simp: general_search_def split: sum.splits)
  from search_loop_exit[OF l] gp h0 show ?thesis by blast
qed

subsection \<open>Parent chains\<close>

lemma path_up_parent:
  "parent s = Some node \<Longrightarrow> path_up s = state s # path_up node"
  by (cases s) simp

lemma path_up_root: "parent s = None \<Longrightarrow> path_up s = [state s]"
  by (cases s) simp

lemma reconstruct_path_parent:
  "parent s = Some node \<Longrightarrow> reconstruct_path s = reconstruct_path node @ [state s]"
  by (simp add: reconstruct_path_def path_up_parent)

lemma reconstruct_path_last: "reconstruct_path s \<noteq> [] \<and> last (reconstruct_path s) = state s"
  by (cases s) (simp add: reconstruct_path_def)

lemma is_move_sequence_snoc:
  "is_move_sequence (p @ [t]) \<longleftrightarrow> is_move_sequence p \<and> (p \<noteq> [] \<longrightarrow> adjacent_swap (last p) t)"
  by (induction p rule: is_move_sequence.induct) auto

lemma path_ok_root: "path_ok init (PuzzleNode_init init None None 0 h0)"
  by (simp add: path_ok_def solution_path_def reconstruct_path_def PuzzleNode_init_def)

lemma path_ok_child:
  assumes "path_ok init node" "parent s = Some node" "adjacent_swap (state node) (state s)"
    "g_cost s = g_cost node + 1"
  shows "path_ok init s"
proof -
  have p: "reconstruct_path s = reconstruct_path node @ [state s]"
    using assms(2) by (rule reconstruct_path_parent)
  from reconstruct_path_last[of node] have l: "reconstruct_path node \<noteq> []"
    "last (reconstruct_path node) = state node" by simp_all
  from assms(1) have "hd (reconstruct_path node) = init" "is_move_sequence (reconstruct_path node)"
    "int (length (reconstruct_path node)) = g_cost node + 1"
    by (simp_all add: path_ok_def solution_path_def)
  with l assms(3,4) show ?thesis
    by (simp add: path_ok_def solution_path_def p is_move_sequence_snoc)
qed

lemma frontier_after_pass:
  assumes "search_iteration gp goal_state hf s = Continue s'" "m \<in> set (frontier s')"
  shows "m \<in> set (frontier s) \<or>
     (\<exists>node succs. node \<in> set (frontier s) \<and> state node \<noteq> goal_state \<and>
        state node \<notin> explored s \<and> expand gp node goal_state hf = Inr succs \<and> m \<in> set succs)"
proof -
  from search_iteration_Continue[OF assms(1)] obtain node fr where
    pop: "heappop (frontier s) = Inr (node, fr)" and ng: "state node \<noteq> goal_state"
    and cases: "frontier s' = fr \<or>
       (state node \<notin> explored s \<and>
        (\<exists>succs. expand gp node goal_state hf = Inr succs \<and> frontier s' = foldl heappush fr
             (filter (\<lambda>c. state c \<notin> insert (state node) (explored s)) succs)))"
    by blast
  from pop have ne: "frontier s \<noteq> []" by (auto simp: heappop_def)
  from heappop_Inr[OF ne] pop have ms: "mset (frontier s) = add_mset node (mset fr)" by auto
  then have sub: "node \<in> set (frontier s)" "set fr \<subseteq> set (frontier s)"
    by (metis mset_eq_setD list.set_intros(1) set_mset_add_mset_insert set_mset_mset insertI1,
        metis mset_eq_setD set_mset_add_mset_insert set_mset_mset subset_insertI)
  from cases show ?thesis
  proof
    assume "frontier s' = fr"
    with assms(2) sub show ?thesis by auto
  next
    assume "state node \<notin> explored s \<and>
        (\<exists>succs. expand gp node goal_state hf = Inr succs \<and> frontier s' = foldl heappush fr
             (filter (\<lambda>c. state c \<notin> insert (state node) (explored s)) succs))"
    then obtain succs where ne: "state node \<notin> explored s"
      and e: "expand gp node goal_state hf = Inr succs"
      and f: "frontier s' = foldl heappush fr
             (filter (\<lambda>c. state c \<notin> insert (state node) (explored s)) succs)"
      by blast
    have "set (frontier s') = set fr \<union> set (filter (\<lambda>c. state c \<notin> insert (state node) (explored s)) succs)"
      using mset_foldl_heappush[of fr "filter (\<lambda>c. state c \<notin> insert (state node) (explored s)) succs",
          THEN arg_cong[where f = set_mset]] f by simp
    with assms(2) have "m \<in> set fr \<or> m \<in> set succs" by auto
    with sub ng ne e show ?thesis by blast
  qed
qed

lemma search_run_path_ok:
  assumes "search_run k gp goal_state hf (initial_search_state init h0) = Some s"
  shows "\<forall>m\<in>set (frontier s). path_ok init m"
  using assms
proof (rule search_run_invariant)
  show "\<forall>m\<in>set (frontier (initial_search_state init h0)). path_ok init m"
    by (simp add: initial_search_state_def heapify_singleton path_ok_root)
next
  fix s s' assume inv: "\<forall>m\<in>set (frontier s). path_ok init m"
    and it: "search_iteration gp goal_state hf s = Continue s'"
  show "\<forall>m\<in>set (frontier s'). path_ok init m"
  proof
    fix m assume "m \<in> set (frontier s')"
    from frontier_after_pass[OF it this] show "path_ok init m"
    proof
      assume "m \<in> set (frontier s)"
      with inv show ?thesis by simp
    next
      assume "\<exists>node succs. node \<in> set (frontier s) \<and> state node \<noteq> goal_state \<and>
        state node \<notin> explored s \<and> expand gp node goal_state hf = Inr succs \<and> m \<in> set succs"
      then obtain node succs where n: "node \<in> set (frontier s)"
        and e: "expand gp node goal_state hf = Inr succs" "m \<in> set succs" by blast
      from expand_successor[OF e] inv n show ?thesis by (auto intro: path_ok_child)
    qed
  qed
qed

text \<open>
  Claim C7. For the goal node that a successful search returns, \<^verbatim>\<open>reconstruct_path\<close>
  gives the states from the root to the goal: the first is the initial state, the last
  is the goal state, and each state comes from the one before by one exchange of the
  blank with a cell next to it. The list has as many moves as the node's \<open>g_cost\<close>.
\<close>

theorem reconstruct_path_spec:
  assumes "general_search gp0 init goal_state hf = Some (Inr (Some node, ec, mq))"
  shows "reconstruct_path node \<noteq> [] \<and> hd (reconstruct_path node) = init \<and>
         last (reconstruct_path node) = goal_state \<and>
         is_move_sequence (reconstruct_path node) \<and>
         int (length (reconstruct_path node)) = g_cost node + 1"
proof -
  from general_search_exit[OF assms] obtain gp h0 k s where
    run: "search_run k gp goal_state hf (initial_search_state init h0) = Some s"
    and ex: "loop_exit gp goal_state hf s (Inr (Some node, ec, mq))"
    by blast
  from ex have ne: "frontier s \<noteq> []" by (auto simp: loop_exit_def split: if_splits)
  with ex obtain x where "search_iteration gp goal_state hf s = Return x"
    "x = (Some node, ec, mq)"
    by (auto simp: loop_exit_def split: step_result.splits)
  from search_iteration_Return[OF this(1)] this(2) obtain fr where
    pop: "heappop (frontier s) = Inr (node, fr)" and g: "state node = goal_state"
    by auto
  from heappop_Inr[OF ne] pop have "node = frontier s ! 0" by simp
  with ne have "node \<in> set (frontier s)" by simp
  with search_run_path_ok[OF run] have "path_ok init node" by simp
  with g show ?thesis by (simp add: path_ok_def solution_path_def)
qed

theorem reconstruct_path_spec_witness:
  "general_search Map.empty [[1, 2, 3], [4, 0, 5], [7, 8, 6]] [[1, 2, 3], [4, 5, 6], [7, 8, 0]]
     MisplacedTile =
     Some (Inr (Some (the (fst (projr (the (general_search Map.empty [[1, 2, 3], [4, 0, 5], [7, 8, 6]]
                  [[1, 2, 3], [4, 5, 6], [7, 8, 0]] MisplacedTile))))), 2, 5)) \<and>
   reconstruct_path (the (fst (projr (the (general_search Map.empty
       [[1, 2, 3], [4, 0, 5], [7, 8, 6]] [[1, 2, 3], [4, 5, 6], [7, 8, 0]] MisplacedTile))))) =
     [[[1, 2, 3], [4, 0, 5], [7, 8, 6]], [[1, 2, 3], [4, 5, 0], [7, 8, 6]],
      [[1, 2, 3], [4, 5, 6], [7, 8, 0]]] \<and>
   is_move_sequence (reconstruct_path (the (fst (projr (the (general_search Map.empty
       [[1, 2, 3], [4, 0, 5], [7, 8, 6]] [[1, 2, 3], [4, 5, 6], [7, 8, 0]] MisplacedTile))))))"
proof -
  let ?r = "general_search Map.empty [[1, 2, 3], [4, 0, 5], [7, 8, 6]]
      [[1, 2, 3], [4, 5, 6], [7, 8, 0]] MisplacedTile"
  have r: "?r = Some (Inr (Some (the (fst (projr (the ?r)))), 2, 5))" by code_simp
  have p: "reconstruct_path (the (fst (projr (the ?r)))) =
     [[[1, 2, 3], [4, 0, 5], [7, 8, 6]], [[1, 2, 3], [4, 5, 0], [7, 8, 6]],
      [[1, 2, 3], [4, 5, 6], [7, 8, 0]]]" by code_simp
  have s: "fst (projr (the ?r)) = Some (the (fst (projr (the ?r))))" by code_simp
  from reconstruct_path_spec[OF r] r p s show ?thesis by simp
qed

lemma adjacent_swap_cells:
  "adjacent_swap s t \<Longrightarrow>
   \<exists>br bc nr nc. br < length s \<and> bc < length s \<and> nr < length s \<and> nc < length s \<and>
      bc < length (s ! br) \<and> nc < length (s ! nr) \<and> s ! br ! bc = 0 \<and>
      ((br = nr \<and> (bc = Suc nc \<or> nc = Suc bc)) \<or> (bc = nc \<and> (br = Suc nr \<or> nr = Suc br))) \<and>
      t = swapped s (br, bc) (nr, nc)"
  unfolding adjacent_swap_def Bex_def atLeastLessThan_iff by blast

lemma adjacent_swap_configuration:
  "is_configuration n s \<Longrightarrow> adjacent_swap s t \<Longrightarrow> is_configuration n t"
proof -
  assume c: "is_configuration n s" and a: "adjacent_swap s t"
  have len: "length s = n" using c by (simp add: is_configuration_def square_def)
  from adjacent_swap_cells[OF a] obtain br bc nr nc where "br < n" "bc < n" "nr < n" "nc < n"
    "t = swapped s (br, bc) (nr, nc)"
    unfolding len by blast
  then show ?thesis using is_configuration_swapped[OF c] by simp
qed

text \<open>
  Claim C9. In a search started from a Configuration, every state in the frontier and
  every state in the explored set, at the head of the loop after any number of passes,
  is a Configuration of the same size: it holds each value of \<open>0..n\<^sup>2-1\<close> exactly once.
\<close>

theorem search_keeps_configurations:
  assumes "is_configuration n init"
    "search_run k gp goal_state hf (initial_search_state init h0) = Some s"
  shows "(\<forall>node\<in>set (frontier s). is_configuration n (state node)) \<and>
         (\<forall>st\<in>explored s. is_configuration n st)"
  using assms(2)
proof (rule search_run_invariant)
  show "(\<forall>node\<in>set (frontier (initial_search_state init h0)). is_configuration n (state node)) \<and>
        (\<forall>st\<in>explored (initial_search_state init h0). is_configuration n st)"
    using assms(1) by (simp add: initial_search_state_def heapify_singleton PuzzleNode_init_def)
next
  fix s s'
  assume inv: "(\<forall>node\<in>set (frontier s). is_configuration n (state node)) \<and>
        (\<forall>st\<in>explored s. is_configuration n st)"
    and ne: "frontier s \<noteq> []"
    and it: "search_iteration gp goal_state hf s = Continue s'"
  have fr: "is_configuration n (state m)" if "m \<in> set (frontier s')" for m
    using frontier_after_pass[OF it that]
  proof
    assume "m \<in> set (frontier s)"
    with inv show ?thesis by simp
  next
    assume "\<exists>node succs. node \<in> set (frontier s) \<and> state node \<noteq> goal_state \<and>
        state node \<notin> explored s \<and> expand gp node goal_state hf = Inr succs \<and> m \<in> set succs"
    then obtain node succs where n: "node \<in> set (frontier s)"
      and e: "expand gp node goal_state hf = Inr succs" "m \<in> set succs" by blast
    from expand_successor[OF e] have "adjacent_swap (state node) (state m)" by simp
    with inv n show ?thesis by (auto intro: adjacent_swap_configuration)
  qed
  have ex: "is_configuration n st" if "st \<in> explored s'" for st
  proof -
    from search_iteration_Continue[OF it] obtain node fr where
      pop: "heappop (frontier s) = Inr (node, fr)"
      and c: "explored s' = explored s \<or> explored s' = insert (state node) (explored s)"
      by blast
    from heappop_Inr[OF ne] pop have "node = frontier s ! 0" by simp
    with ne have "node \<in> set (frontier s)" by simp
    with inv have "is_configuration n (state node)" by simp
    with c inv that show ?thesis by auto
  qed
  from fr ex show "(\<forall>node\<in>set (frontier s'). is_configuration n (state node)) \<and>
        (\<forall>st\<in>explored s'. is_configuration n st)" by blast
qed

theorem search_keeps_configurations_witness:
  "is_configuration 3 [[1, 2, 3], [4, 0, 5], [7, 8, 6]] \<and>
   search_run 1 Map.empty [[1, 2, 3], [4, 5, 6], [7, 8, 0]] MisplacedTile
     (initial_search_state [[1, 2, 3], [4, 0, 5], [7, 8, 6]] 2) =
     Some (the (search_run 1 Map.empty [[1, 2, 3], [4, 5, 6], [7, 8, 0]] MisplacedTile
       (initial_search_state [[1, 2, 3], [4, 0, 5], [7, 8, 6]] 2))) \<and>
   length (frontier (the (search_run 1 Map.empty [[1, 2, 3], [4, 5, 6], [7, 8, 0]] MisplacedTile
       (initial_search_state [[1, 2, 3], [4, 0, 5], [7, 8, 6]] 2)))) = 4 \<and>
   list_all (\<lambda>node. is_configuration 3 (state node))
     (frontier (the (search_run 1 Map.empty [[1, 2, 3], [4, 5, 6], [7, 8, 0]] MisplacedTile
       (initial_search_state [[1, 2, 3], [4, 0, 5], [7, 8, 6]] 2))))"
proof -
  let ?run = "search_run 1 Map.empty [[1, 2, 3], [4, 5, 6], [7, 8, 0]] MisplacedTile
       (initial_search_state [[1, 2, 3], [4, 0, 5], [7, 8, 6]] 2)"
  have c: "is_configuration 3 [[1, 2, 3], [4, 0, 5], [7, 8, 6]]"
    by (simp add: is_configuration_def square_def upt_conv_Cons)
  have run: "?run = Some (the ?run)" by code_simp
  have len: "length (frontier (the ?run)) = 4" by code_simp
  from search_keeps_configurations[OF c run] c run len show ?thesis
    by (simp add: list_all_iff)
qed

subsection \<open>The heuristics change by at most one along a move\<close>

lemma grid_sum_prod:
  "grid_sum \<phi> n st = (\<Sum>p\<in>{0..<n} \<times> {0..<n}. \<phi> (fst p) (snd p) (st ! fst p ! snd p))"
  by (simp add: grid_sum_as_sum sum.cartesian_product split_def)

lemma sum_two_points:
  fixes f g :: "'a \<Rightarrow> int"
  assumes "finite S" "p \<in> S" "q \<in> S" "p \<noteq> q" "\<forall>x\<in>S. x \<noteq> p \<and> x \<noteq> q \<longrightarrow> f x = g x"
  shows "sum f S - f p - f q = sum g S - g p - g q"
proof -
  have q: "q \<in> S - {p}" using assms by simp
  have fin: "finite (S - {p})" using assms(1) by simp
  have "sum f S = f p + (f q + sum f (S - {p} - {q}))"
    using sum.remove[OF assms(1,2), of f] sum.remove[OF fin q, of f] by simp
  moreover have "sum g S = g p + (g q + sum g (S - {p} - {q}))"
    using sum.remove[OF assms(1,2), of g] sum.remove[OF fin q, of g] by simp
  moreover have "sum f (S - {p} - {q}) = sum g (S - {p} - {q})"
    using assms(5) by (intro sum.cong) auto
  ultimately show ?thesis by simp
qed

lemma grid_sum_swapped:
  assumes "square n s" "br < n" "bc < n" "nr < n" "nc < n" "(br, bc) \<noteq> (nr, nc)"
    "s ! br ! bc = 0" "\<forall>r c. \<phi> r c 0 = 0"
  shows "grid_sum \<phi> n (swapped s (br, bc) (nr, nc)) =
         grid_sum \<phi> n s - \<phi> nr nc (s ! nr ! nc) + \<phi> br bc (s ! nr ! nc)"
proof -
  let ?t = "swapped s (br, bc) (nr, nc)"
  let ?S = "{0..<n} \<times> {0..<n}"
  let ?f = "\<lambda>p. \<phi> (fst p) (snd p) (?t ! fst p ! snd p)"
  let ?g = "\<lambda>p. \<phi> (fst p) (snd p) (s ! fst p ! snd p)"
  have len: "length s = n" and rows: "\<And>r. r < n \<Longrightarrow> length (s ! r) = n"
    using assms(1) by (simp_all add: square_def)
  have nth: "?t ! r ! c = (if (r, c) = (br, bc) then s ! nr ! nc
       else if (r, c) = (nr, nc) then s ! br ! bc else s ! r ! c)" if "r < n" "c < n" for r c
    using that len rows by (simp add: swapped_nth)
  have "sum ?f ?S - ?f (br, bc) - ?f (nr, nc) = sum ?g ?S - ?g (br, bc) - ?g (nr, nc)"
  proof (rule sum_two_points)
    show "\<forall>x\<in>?S. x \<noteq> (br, bc) \<and> x \<noteq> (nr, nc) \<longrightarrow> ?f x = ?g x"
      using nth by (auto simp: prod_eq_iff)
  qed (use assms in auto)
  moreover have "?f (br, bc) = \<phi> br bc (s ! nr ! nc)" using nth assms by simp
  moreover have "?f (nr, nc) = 0" using nth[OF assms(4,5)] assms(6,7,8) by auto
  moreover have "?g (br, bc) = 0" using assms(7,8) by simp
  moreover have "?g (nr, nc) = \<phi> nr nc (s ! nr ! nc)" by simp
  ultimately show ?thesis by (simp add: grid_sum_prod)
qed

lemma misplaced_at_step: "\<bar>misplaced_at goal_state r c v - misplaced_at goal_state r' c' v\<bar> \<le> 1"
  by (simp add: misplaced_at_def)

lemma manhattan_at_step:
  assumes "(r = r' \<and> (c = Suc c' \<or> c' = Suc c)) \<or> (c = c' \<and> (r = Suc r' \<or> r' = Suc r))"
  shows "\<bar>manhattan_at gp r c v - manhattan_at gp r' c' v\<bar> \<le> 1"
  using assms by (auto simp: manhattan_at_def split: option.splits)

lemma heuristic_value_step:
  assumes "is_configuration n s" "adjacent_swap s t"
  shows "\<bar>heuristic_value gp hf goal_state n t - heuristic_value gp hf goal_state n s\<bar> \<le> 1"
proof -
  have sq: "square n s" using assms(1) by (rule is_configuration_square)
  have len: "length s = n" using sq by (rule square_length)
  from adjacent_swap_cells[OF assms(2)] obtain br bc nr nc where
    i: "br < n" "bc < n" "nr < n" "nc < n" and z: "s ! br ! bc = 0"
    and adj: "(br = nr \<and> (bc = Suc nc \<or> nc = Suc bc)) \<or> (bc = nc \<and> (br = Suc nr \<or> nr = Suc br))"
    and t: "t = swapped s (br, bc) (nr, nc)"
    unfolding len by blast
  from adj have ne: "(br, bc) \<noteq> (nr, nc)" by auto
  have gs: "grid_sum \<phi> n t = grid_sum \<phi> n s - \<phi> nr nc (s ! nr ! nc) + \<phi> br bc (s ! nr ! nc)"
    if "\<forall>r c. \<phi> r c 0 = 0" for \<phi>
    unfolding t using sq i ne z that by (rule grid_sum_swapped)
  show ?thesis
  proof (cases hf)
    case NoHeuristic
    then show ?thesis by (simp add: heuristic_value_def)
  next
    case MisplacedTile
    have "\<forall>r c. misplaced_at goal_state r c 0 = 0" by (simp add: misplaced_at_def)
    from gs[of "misplaced_at goal_state", OF this]
      misplaced_at_step[of goal_state br bc "s ! nr ! nc" nr nc]
    show ?thesis using MisplacedTile by (simp add: heuristic_value_def)
  next
    case ManhattanDistance
    have "\<forall>r c. manhattan_at gp r c 0 = 0" by (simp add: manhattan_at_def)
    from gs[of "manhattan_at gp", OF this] manhattan_at_step[OF adj, of gp "s ! nr ! nc"]
    show ?thesis using ManhattanDistance by (simp add: heuristic_value_def)
  qed
qed

subsection \<open>Reachability by moves\<close>

lemma reach_0: "reach init 0 s \<longleftrightarrow> s = init"
proof
  assume "reach init 0 s"
  then obtain p where p: "solution_path init s p" "length p = Suc 0" by (auto simp: reach_def)
  then obtain x where "p = [x]" by (cases p) auto
  with p show "s = init" by (auto simp: solution_path_def)
next
  assume "s = init"
  then have "solution_path init s [init]" by (simp add: solution_path_def)
  then show "reach init 0 s" unfolding reach_def by (intro exI[of _ "[init]"]) simp
qed

lemma reach_Suc: "reach init (Suc k) t \<longleftrightarrow> (\<exists>u. reach init k u \<and> adjacent_swap u t)"
proof
  assume "reach init (Suc k) t"
  then obtain p where p: "solution_path init t p" "length p = Suc (Suc k)"
    by (auto simp: reach_def)
  then obtain p' x where px: "p = p' @ [x]" by (cases p rule: rev_cases) auto
  with p have len: "length p' = Suc k" and ne: "p' \<noteq> []" by auto
  from p(1) have x: "x = t" and hd: "hd p' = init" and ms: "is_move_sequence (p' @ [x])"
    using ne by (auto simp: solution_path_def px)
  from ms have "is_move_sequence p'" "adjacent_swap (last p') t"
    using ne unfolding x is_move_sequence_snoc by simp_all
  with hd ne have "solution_path init (last p') p'" "adjacent_swap (last p') t"
    by (simp_all add: solution_path_def)
  with len show "\<exists>u. reach init k u \<and> adjacent_swap u t" unfolding reach_def by blast
next
  assume "\<exists>u. reach init k u \<and> adjacent_swap u t"
  then obtain u p where p: "solution_path init u p" "length p = Suc k" and a: "adjacent_swap u t"
    by (auto simp: reach_def)
  then have "solution_path init t (p @ [t])"
    by (simp add: solution_path_def is_move_sequence_snoc)
  with p(2) show "reach init (Suc k) t" unfolding reach_def by (intro exI[of _ "p @ [t]"]) simp
qed

lemma solution_path_reach: "solution_path init s p \<Longrightarrow> reach init (length p - 1) s"
  unfolding reach_def by (intro exI[of _ p]) (simp add: solution_path_def)

lemma path_ok_reach:
  assumes "path_ok init m"
  shows "0 \<le> g_cost m \<and> reach init (nat (g_cost m)) (state m)"
proof -
  from assms have sp: "solution_path init (state m) (reconstruct_path m)"
    and len: "int (length (reconstruct_path m)) = g_cost m + 1"
    by (simp_all add: path_ok_def)
  from sp have "0 < length (reconstruct_path m)" by (simp add: solution_path_def)
  with len have g: "0 \<le> g_cost m" by linarith
  with len have "length (reconstruct_path m) = Suc (nat (g_cost m))" by linarith
  with sp g show ?thesis unfolding reach_def by blast
qed

lemma reach_configuration:
  "is_configuration n init \<Longrightarrow> reach init k s \<Longrightarrow> is_configuration n s"
  by (induction k arbitrary: s) (auto simp: reach_0 reach_Suc intro: adjacent_swap_configuration)

subsection \<open>\<^verbatim>\<open>expand\<close> returns every neighbour of a Configuration\<close>

lemma move_for_neighbour:
  assumes "(br = nr \<and> (bc = Suc nc \<or> nc = Suc bc)) \<or> (bc = nc \<and> (br = Suc nr \<or> nr = Suc br))"
    "nr < n" "nc < n"
  shows "\<exists>m\<in>set moves. nat (int br + fst m) = nr \<and> nat (int bc + fst (snd m)) = nc \<and>
           move_in_bounds n br bc m"
  using assms by (auto simp: moves_def move_in_bounds_def in_grid_def)

lemma expand_complete:
  assumes "is_configuration n (state node)" "expand gp node goal_state hf = Inr succs"
    "adjacent_swap (state node) t"
  shows "\<exists>c\<in>set succs. state c = t"
proof -
  let ?s = "state node"
  have sq: "square n ?s" using assms(1) by (rule is_configuration_square)
  have len: "length ?s = n" using sq by (rule square_length)
  from expand_Inr[OF assms(2)] obtain br bc where
    b: "find_blank ?s = Inr (Some (br, bc))"
    and succs: "succs = map (child_node gp hf goal_state node br bc)
               (filter (move_in_bounds (length ?s) br bc) moves)"
    by blast
  from find_blank_Some[OF b] len have bl: "br < n" "bc < n" "?s ! br ! bc = 0" by simp_all
  from adjacent_swap_cells[OF assms(3)] obtain br' bc' nr nc where
    i: "br' < n" "bc' < n" "nr < n" "nc < n" and z: "?s ! br' ! bc' = 0"
    and adj: "(br' = nr \<and> (bc' = Suc nc \<or> nc = Suc bc')) \<or> (bc' = nc \<and> (br' = Suc nr \<or> nr = Suc br'))"
    and t: "t = swapped ?s (br', bc') (nr, nc)"
    unfolding len by blast
  have "br' = br \<and> bc' = bc"
    using square_cell_unique[OF sq is_configuration_distinct[OF assms(1)] i(1,2) bl(1,2)] z bl(3)
    by simp
  with adj t have adj': "(br = nr \<and> (bc = Suc nc \<or> nc = Suc bc)) \<or> (bc = nc \<and> (br = Suc nr \<or> nr = Suc br))"
    and t': "t = swapped ?s (br, bc) (nr, nc)" by simp_all
  from move_for_neighbour[OF adj' i(3,4)] obtain m where
    m: "m \<in> set moves" "nat (int br + fst m) = nr" "nat (int bc + fst (snd m)) = nc"
    "move_in_bounds n br bc m" by blast
  have "child_node gp hf goal_state node br bc m \<in> set succs"
    using m by (simp add: succs len)
  moreover have "state (child_node gp hf goal_state node br bc m) = t"
    using m by (simp add: child_node_fields t')
  ultimately show ?thesis by blast
qed

subsection \<open>The Configurations of one size are finitely many\<close>

lemma finite_configurations: "finite {st. is_configuration n st}"
proof -
  let ?A = "int ` {0..<n * n}"
  let ?R = "{row. set row \<subseteq> ?A \<and> length row = n}"
  have "finite ?R" by (intro finite_lists_length_eq) simp
  then have fin: "finite {st. set st \<subseteq> ?R \<and> length st = n}" by (rule finite_lists_length_eq)
  have "{st. is_configuration n st} \<subseteq> {st. set st \<subseteq> ?R \<and> length st = n}"
  proof
    fix st assume "st \<in> {st. is_configuration n st}"
    then have c: "is_configuration n st" by simp
    then have sq: "square n st" by (rule is_configuration_square)
    have "set row \<subseteq> ?A" if "row \<in> set st" for row
      using is_configuration_set[OF c] that by auto
    with sq show "st \<in> {st. set st \<subseteq> ?R \<and> length st = n}"
      by (auto simp: square_def)
  qed
  then show ?thesis using fin by (rule finite_subset)
qed

subsection \<open>The invariant of the search loop\<close>

lemma astar_inv_initial:
  assumes "is_configuration n init"
  shows "astar_inv n gp hf goal_state init
           (initial_search_state init (heuristic_value gp hf goal_state n init))"
proof -
  let ?root = "PuzzleNode_init init None None 0 (heuristic_value gp hf goal_state n init)"
  have "path_ok init ?root" by (rule path_ok_root)
  moreover have "state ?root = init" "g_cost ?root = 0"
    "h_cost ?root = heuristic_value gp hf goal_state n init"
    "f_cost ?root = g_cost ?root + h_cost ?root"
    by (simp_all add: PuzzleNode_init_def)
  ultimately show ?thesis
    using assms
    by (simp add: astar_inv_def initial_search_state_def heapify_singleton heap_ok_def)
qed

lemma frontier_lower_bound:
  assumes "astar_inv n gp hf goal_state init s" "is_configuration n init"
  shows "reach init k t \<Longrightarrow> t \<notin> explored s \<Longrightarrow>
         \<exists>m\<in>set (frontier s). f_cost m \<le> int k + heuristic_value gp hf goal_state n t"
proof (induction k arbitrary: t)
  case 0
  then have t: "t = init" by (simp add: reach_0)
  with 0 assms(1) obtain m where m: "m \<in> set (frontier s)" "state m = init" "g_cost m = 0"
    by (auto simp: astar_inv_def)
  with assms(1) have "f_cost m = heuristic_value gp hf goal_state n init"
    by (auto simp: astar_inv_def)
  with m(1) t show ?case by (intro bexI[of _ m]) simp_all
next
  case (Suc k)
  from Suc.prems(1) obtain u where u: "reach init k u" "adjacent_swap u t"
    by (auto simp: reach_Suc)
  show ?case
  proof (cases "u \<in> explored s")
    case True
    with assms(1) u(2) Suc.prems(2) obtain m where m: "m \<in> set (frontier s)" "state m = t"
      "\<forall>k'. reach init k' u \<longrightarrow> g_cost m \<le> int k' + 1"
      unfolding astar_inv_def by blast
    with u(1) have "g_cost m \<le> int k + 1" by blast
    moreover from assms(1) m(1,2) have "f_cost m = g_cost m + heuristic_value gp hf goal_state n t"
      by (auto simp: astar_inv_def)
    ultimately show ?thesis using m(1) by (intro bexI[of _ m]) simp_all
  next
    case False
    from Suc.IH[OF u(1) False] obtain m where m: "m \<in> set (frontier s)"
      "f_cost m \<le> int k + heuristic_value gp hf goal_state n u" by blast
    have "is_configuration n u" using assms(2) u(1) by (rule reach_configuration)
    from heuristic_value_step[OF this u(2), of gp hf goal_state]
    have "heuristic_value gp hf goal_state n u \<le> heuristic_value gp hf goal_state n t + 1"
      by linarith
    with m show ?thesis by (intro bexI[of _ m]) simp_all
  qed
qed

lemma popped_optimal:
  assumes "astar_inv n gp hf goal_state init s" "is_configuration n init"
    "heappop (frontier s) = Inr (node, fr)" "state node \<notin> explored s"
    "reach init k (state node)"
  shows "g_cost node \<le> int k"
proof -
  from frontier_lower_bound[OF assms(1,2,5,4)] obtain m where m: "m \<in> set (frontier s)"
    "f_cost m \<le> int k + heuristic_value gp hf goal_state n (state node)" by blast
  have ok: "heap_ok (frontier s)" using assms(1) by (simp add: astar_inv_def)
  from heappop_min[OF ok assms(3)] m(1) have n: "node \<in> set (frontier s)" "node_le node m"
    by simp_all
  from n(2) have "f_cost node \<le> f_cost m" by (auto simp: node_le_iff)
  moreover from assms(1) n(1)
  have "f_cost node = g_cost node + heuristic_value gp hf goal_state n (state node)"
    by (auto simp: astar_inv_def)
  ultimately show ?thesis using m(2) by simp
qed

lemma set_foldl_heappush: "set (foldl heappush fr xs) = set fr \<union> set xs"
  using mset_foldl_heappush[of fr xs, THEN arg_cong[where f = set_mset]] by simp

lemma length_foldl_heappush: "length (foldl heappush fr xs) = length fr + length xs"
  using mset_foldl_heappush[of fr xs, THEN arg_cong[where f = size]] by simp

lemma heappop_set:
  assumes "heappop heap = Inr (x, rest)"
  shows "set heap = insert x (set rest) \<and> length heap = Suc (length rest)"
proof -
  from assms have ne: "heap \<noteq> []" by (auto simp: heappop_def)
  from heappop_Inr[OF ne] assms have ms: "mset heap = add_mset x (mset rest)" by auto
  from ms[THEN arg_cong[where f = set_mset]] ms[THEN arg_cong[where f = size]]
  show ?thesis by simp
qed

lemma configuration_zero: "is_configuration 0 st \<Longrightarrow> st = []"
  by (simp add: is_configuration_def square_def)

lemma expand_never_raises:
  assumes "is_configuration n (state node)" "is_configuration n goal_state"
    "search_goal_pos gp0 goal_state hf = Inr gp" "state node \<noteq> goal_state"
  shows "expand gp node goal_state hf \<noteq> Inl e"
proof -
  have "0 < n"
  proof (rule ccontr)
    assume "\<not> 0 < n"
    then have "n = 0" by simp
    with assms(1,2) have "state node = []" "goal_state = []"
      by (simp_all add: configuration_zero)
    with assms(4) show False by simp
  qed
  from find_blank_configuration[OF assms(1) this] obtain br bc where
    "find_blank (state node) = Inr (Some (br, bc))" by blast
  from expand_configuration[OF assms(1,2,3) this] show ?thesis by simp
qed

lemma search_pass_measure:
  assumes "astar_inv n gp hf goal_state init s"
    "search_iteration gp goal_state hf s = Continue s'"
  shows "card ({st. is_configuration n st} - explored s') <
           card ({st. is_configuration n st} - explored s) \<or>
         (explored s' = explored s \<and> length (frontier s') < length (frontier s))"
proof -
  let ?V = "{st. is_configuration n st}"
  from search_iteration_Continue[OF assms(2)] obtain node fr where
    pop: "heappop (frontier s) = Inr (node, fr)"
    and cases: "(state node \<in> explored s \<and> frontier s' = fr \<and> explored s' = explored s) \<or>
      (state node \<notin> explored s \<and> explored s' = insert (state node) (explored s))"
    by blast
  from heappop_set[OF pop] have fs: "node \<in> set (frontier s)"
    "length (frontier s) = Suc (length fr)" by simp_all
  from cases show ?thesis
  proof
    assume "state node \<in> explored s \<and> frontier s' = fr \<and> explored s' = explored s"
    with fs show ?thesis by simp
  next
    assume b: "state node \<notin> explored s \<and> explored s' = insert (state node) (explored s)"
    from assms(1) fs(1) have "state node \<in> ?V" by (simp add: astar_inv_def)
    with b have "?V - explored s' \<subset> ?V - explored s" by auto
    moreover have "finite (?V - explored s)" using finite_configurations by simp
    ultimately show ?thesis by (simp add: psubset_card_mono)
  qed
qed

lemma astar_inv_step:
  assumes inv: "astar_inv n gp hf goal_state init s"
    and ci: "is_configuration n init" and cg: "is_configuration n goal_state"
    and gp: "search_goal_pos gp0 goal_state hf = Inr gp"
    and it: "search_iteration gp goal_state hf s = Continue s'"
  shows "astar_inv n gp hf goal_state init s'"
proof -
  let ?H = "heuristic_value gp hf goal_state n"
  from inv have ok: "heap_ok (frontier s)" by (simp add: astar_inv_def)
  from inv have nodes0: "\<forall>m\<in>set (frontier s).
         is_configuration n (state m) \<and> path_ok init m \<and> h_cost m = ?H (state m) \<and>
         f_cost m = g_cost m + h_cost m" by (simp add: astar_inv_def)
  from inv have expl0: "\<forall>st\<in>explored s. is_configuration n st \<and> st \<noteq> goal_state"
    by (simp add: astar_inv_def)
  from inv have root: "init \<in> explored s \<or> (\<exists>m\<in>set (frontier s). state m = init \<and> g_cost m = 0)"
    by (simp add: astar_inv_def)
  from inv have nbr0: "\<forall>u\<in>explored s. \<forall>t. adjacent_swap u t \<longrightarrow>
         t \<in> explored s \<or>
         (\<exists>m\<in>set (frontier s). state m = t \<and> (\<forall>k. reach init k u \<longrightarrow> g_cost m \<le> int k + 1))"
    by (simp add: astar_inv_def)
  have nodes: "is_configuration n (state m) \<and> path_ok init m \<and> h_cost m = ?H (state m) \<and>
         f_cost m = g_cost m + h_cost m" if "m \<in> set (frontier s)" for m
    using nodes0 that by (rule bspec)
  have expl: "is_configuration n st \<and> st \<noteq> goal_state" if "st \<in> explored s" for st
    using expl0 that by (rule bspec)
  have nbr: "t \<in> explored s \<or>
         (\<exists>m\<in>set (frontier s). state m = t \<and> (\<forall>k. reach init k u \<longrightarrow> g_cost m \<le> int k + 1))"
    if "u \<in> explored s" "adjacent_swap u t" for u t
    using nbr0 that by blast
  from search_iteration_Continue[OF it] obtain node fr where
    pop: "heappop (frontier s) = Inr (node, fr)" and ng: "state node \<noteq> goal_state"
    and cases: "(state node \<in> explored s \<and> frontier s' = fr \<and> explored s' = explored s) \<or>
      (state node \<notin> explored s \<and>
       (\<exists>succs. expand gp node goal_state hf = Inr succs \<and>
          frontier s' = foldl heappush fr
             (filter (\<lambda>c. state c \<notin> insert (state node) (explored s)) succs) \<and>
          explored s' = insert (state node) (explored s)))"
    by blast
  from heappop_set[OF pop] have fs: "set (frontier s) = insert node (set fr)" by simp
  have okfr: "heap_ok fr" using ok pop by (rule heappop_heap_ok)
  have cn: "is_configuration n (state node)" and pn: "path_ok init node"
    using nodes[of node] fs by simp_all
  from cases show ?thesis
  proof
    assume a: "state node \<in> explored s \<and> frontier s' = fr \<and> explored s' = explored s"
    then have f': "frontier s' = fr" and e': "explored s' = explored s"
      and ne: "state node \<in> explored s" by simp_all
    have 1: "heap_ok (frontier s')" using okfr f' by simp
    have 2: "\<forall>m\<in>set (frontier s'). is_configuration n (state m) \<and> path_ok init m \<and>
         h_cost m = ?H (state m) \<and> f_cost m = g_cost m + h_cost m"
      using nodes fs f' by simp
    have 3: "\<forall>st\<in>explored s'. is_configuration n st \<and> st \<noteq> goal_state"
      using expl e' by simp
    have 4: "init \<in> explored s' \<or> (\<exists>m\<in>set (frontier s'). state m = init \<and> g_cost m = 0)"
      using root ne fs f' e' by auto
    have 5: "\<forall>u\<in>explored s'. \<forall>t. adjacent_swap u t \<longrightarrow> t \<in> explored s' \<or>
         (\<exists>m\<in>set (frontier s'). state m = t \<and> (\<forall>k. reach init k u \<longrightarrow> g_cost m \<le> int k + 1))"
    proof (intro ballI allI impI)
      fix u t assume u: "u \<in> explored s'" and a: "adjacent_swap u t"
      from nbr[OF u[unfolded e'] a]
      show "t \<in> explored s' \<or>
         (\<exists>m\<in>set (frontier s'). state m = t \<and> (\<forall>k. reach init k u \<longrightarrow> g_cost m \<le> int k + 1))"
      proof
        assume "t \<in> explored s"
        then show ?thesis by (simp add: e')
      next
        assume "\<exists>m\<in>set (frontier s). state m = t \<and> (\<forall>k. reach init k u \<longrightarrow> g_cost m \<le> int k + 1)"
        then obtain m where m: "m \<in> set (frontier s)" "state m = t"
          "\<forall>k. reach init k u \<longrightarrow> g_cost m \<le> int k + 1" by blast
        show ?thesis
        proof (cases "m = node")
          case True
          with m(2) ne show ?thesis by (simp add: e')
        next
          case False
          with m(1) fs have "m \<in> set (frontier s')" by (simp add: f')
          with m(2,3) show ?thesis by blast
        qed
      qed
    qed
    show ?thesis unfolding astar_inv_def by (intro conjI 1 2 3 4 5)
  next
    assume "state node \<notin> explored s \<and>
       (\<exists>succs. expand gp node goal_state hf = Inr succs \<and>
          frontier s' = foldl heappush fr
             (filter (\<lambda>c. state c \<notin> insert (state node) (explored s)) succs) \<and>
          explored s' = insert (state node) (explored s))"
    then obtain succs where ne: "state node \<notin> explored s"
      and ex: "expand gp node goal_state hf = Inr succs"
      and f': "frontier s' = foldl heappush fr
             (filter (\<lambda>c. state c \<notin> insert (state node) (explored s)) succs)"
      and e': "explored s' = insert (state node) (explored s)"
      by blast
    have fset: "set (frontier s') = set fr \<union> {c \<in> set succs. state c \<notin> explored s'}"
      by (auto simp: f' e' set_foldl_heappush)
    have 1: "heap_ok (frontier s')" using okfr by (simp add: f' heap_ok_foldl_heappush)
    have succ_ok: "is_configuration n (state c) \<and> path_ok init c \<and>
         h_cost c = ?H (state c) \<and> f_cost c = g_cost c + h_cost c \<and>
         g_cost c = g_cost node + 1" if c: "c \<in> set succs" for c
    proof -
      from expand_successor[OF ex c] have a: "adjacent_swap (state node) (state c)"
        and p: "parent c = Some node" and g: "g_cost c = g_cost node + 1"
        and f: "f_cost c = g_cost c + h_cost c"
        and h: "heuristic_call gp hf (state c) goal_state = Inr (h_cost c)"
        by simp_all
      have cc: "is_configuration n (state c)" using cn a by (rule adjacent_swap_configuration)
      from heuristic_call_configuration[OF cc cg gp] h have "h_cost c = ?H (state c)" by simp
      moreover have "path_ok init c" using pn p a g by (rule path_ok_child)
      ultimately show ?thesis using cc f g by simp
    qed
    have 2: "\<forall>m\<in>set (frontier s'). is_configuration n (state m) \<and> path_ok init m \<and>
         h_cost m = ?H (state m) \<and> f_cost m = g_cost m + h_cost m"
      using nodes fs succ_ok by (auto simp: fset)
    have 3: "\<forall>st\<in>explored s'. is_configuration n st \<and> st \<noteq> goal_state"
      using expl cn ng by (auto simp: e')
    have 4: "init \<in> explored s' \<or> (\<exists>m\<in>set (frontier s'). state m = init \<and> g_cost m = 0)"
    proof (cases "init \<in> explored s")
      case True
      then show ?thesis by (simp add: e')
    next
      case False
      with root obtain m where m: "m \<in> set (frontier s)" "state m = init" "g_cost m = 0"
        by blast
      show ?thesis
      proof (cases "m = node")
        case True
        with m(2) show ?thesis by (simp add: e')
      next
        case False
        with m(1) fs have "m \<in> set (frontier s')" by (simp add: fset)
        with m(2,3) show ?thesis by blast
      qed
    qed
    have 5: "\<forall>u\<in>explored s'. \<forall>t. adjacent_swap u t \<longrightarrow> t \<in> explored s' \<or>
         (\<exists>m\<in>set (frontier s'). state m = t \<and> (\<forall>k. reach init k u \<longrightarrow> g_cost m \<le> int k + 1))"
    proof (intro ballI allI impI)
      fix u t assume u: "u \<in> explored s'" and a: "adjacent_swap u t"
      show "t \<in> explored s' \<or>
         (\<exists>m\<in>set (frontier s'). state m = t \<and> (\<forall>k. reach init k u \<longrightarrow> g_cost m \<le> int k + 1))"
      proof (cases "u \<in> explored s")
        case True
        from nbr[OF True a] show ?thesis
        proof
          assume "t \<in> explored s"
          then show ?thesis by (simp add: e')
        next
          assume "\<exists>m\<in>set (frontier s). state m = t \<and>
              (\<forall>k. reach init k u \<longrightarrow> g_cost m \<le> int k + 1)"
          then obtain m where m: "m \<in> set (frontier s)" "state m = t"
            "\<forall>k. reach init k u \<longrightarrow> g_cost m \<le> int k + 1" by blast
          show ?thesis
          proof (cases "m = node")
            case True
            with m(2) show ?thesis by (simp add: e')
          next
            case False
            with m(1) fs have "m \<in> set (frontier s')" by (simp add: fset)
            with m(2,3) show ?thesis by blast
          qed
        qed
      next
        case False
        with u have un: "u = state node" by (simp add: e')
        from expand_complete[OF cn ex a[unfolded un]] obtain c where
          c: "c \<in> set succs" "state c = t" by blast
        show ?thesis
        proof (cases "t \<in> explored s'")
          case True
          then show ?thesis by simp
        next
          case False
          with c have cf: "c \<in> set (frontier s')" by (simp add: fset)
          have "g_cost c \<le> int k + 1" if "reach init k u" for k
          proof -
            from popped_optimal[OF inv ci pop ne that[unfolded un]]
            show ?thesis using succ_ok[OF c(1)] by simp
          qed
          with cf c(2) show ?thesis by blast
        qed
      qed
    qed
    show ?thesis unfolding astar_inv_def by (intro conjI 1 2 3 4 5)
  qed
qed

lemma search_pass_never_raises:
  assumes "astar_inv n gp hf goal_state init s" "is_configuration n goal_state"
    "search_goal_pos gp0 goal_state hf = Inr gp" "frontier s \<noteq> []"
  shows "search_iteration gp goal_state hf s \<noteq> Raise e"
proof
  assume "search_iteration gp goal_state hf s = Raise e"
  from search_iteration_Raise[OF this assms(4)] obtain node fr where
    pop: "heappop (frontier s) = Inr (node, fr)" and ng: "state node \<noteq> goal_state"
    and ex: "expand gp node goal_state hf = Inl e" by blast
  from heappop_set[OF pop] have "node \<in> set (frontier s)" by simp
  with assms(1) have "is_configuration n (state node)" by (simp add: astar_inv_def)
  from expand_never_raises[OF this assms(2,3) ng, of e] ex show False by simp
qed

lemma search_loop_optimal:
  assumes ci: "is_configuration n init" and cg: "is_configuration n goal_state"
    and gp: "search_goal_pos gp0 goal_state hf = Inr gp"
    and solvable: "reach init K goal_state"
    and inv0: "astar_inv n gp hf goal_state init s0"
  shows "\<exists>node ec mq. search_loop gp goal_state hf s0 = Some (Inr (Some node, ec, mq)) \<and>
        state node = goal_state \<and> path_ok init node \<and>
        (\<forall>k. reach init k goal_state \<longrightarrow> g_cost node \<le> int k)"
proof -
  define R where "R = inv_image (less_than <*lex*> less_than)
      (\<lambda>s::search_state.
          (card ({st. is_configuration n st} - explored s), length (frontier s)))"
  have wfR: "wf R" unfolding R_def by (intro wf_inv_image wf_lex_prod wf_less_than)
  define P where "P s \<longleftrightarrow> (astar_inv n gp hf goal_state init s \<longrightarrow>
     (\<exists>node ec mq. search_loop gp goal_state hf s = Some (Inr (Some node, ec, mq)) \<and>
        state node = goal_state \<and> path_ok init node \<and>
        (\<forall>k. reach init k goal_state \<longrightarrow> g_cost node \<le> int k)))" for s
  have "P s" for s
  proof (rule wf_induct[OF wfR])
    fix s assume IH0: "\<forall>s'. (s', s) \<in> R \<longrightarrow> P s'"
    show "P s" unfolding P_def
    proof
    assume inv: "astar_inv n gp hf goal_state init s"
    from inv have gne: "goal_state \<notin> explored s" by (auto simp: astar_inv_def)
    from frontier_lower_bound[OF inv ci solvable gne] have ne: "frontier s \<noteq> []" by auto
    show "\<exists>node ec mq. search_loop gp goal_state hf s = Some (Inr (Some node, ec, mq)) \<and>
        state node = goal_state \<and> path_ok init node \<and>
        (\<forall>k. reach init k goal_state \<longrightarrow> g_cost node \<le> int k)"
    proof (cases "search_iteration gp goal_state hf s")
      case (Return x)
      from search_iteration_Return[OF Return] obtain node fr where
        pop: "heappop (frontier s) = Inr (node, fr)" and g: "state node = goal_state"
        and x: "x = (Some node, expanded_count s, max (max_queue_size s) (int (length (frontier s))))"
        by blast
      have res: "search_loop gp goal_state hf s = Some (Inr x)"
        using ne Return by (subst search_loop.simps) simp
      from heappop_set[OF pop] have "node \<in> set (frontier s)" by simp
      with inv have p: "path_ok init node" by (simp add: astar_inv_def)
      have nex: "state node \<notin> explored s" using gne g by simp
      have "g_cost node \<le> int k" if "reach init k goal_state" for k
      proof -
        from that g have "reach init k (state node)" by simp
        with inv ci pop nex show ?thesis by (rule popped_optimal)
      qed
      then have "\<forall>k. reach init k goal_state \<longrightarrow> g_cost node \<le> int k" by simp
      with res x g p show ?thesis by simp
    next
      case (Raise e)
      with search_pass_never_raises[OF inv cg gp ne, of e] show ?thesis by simp
    next
      case (Continue s')
      have inv': "astar_inv n gp hf goal_state init s'"
        using inv ci cg gp Continue by (rule astar_inv_step)
      from search_pass_measure[OF inv Continue]
      have "(s', s) \<in> R" unfolding R_def by auto
      with IH0 inv' obtain node ec mq where
        r: "search_loop gp goal_state hf s' = Some (Inr (Some node, ec, mq))"
        "state node = goal_state" "path_ok init node"
        "\<forall>k. reach init k goal_state \<longrightarrow> g_cost node \<le> int k"
        unfolding P_def by blast
      have "search_loop gp goal_state hf s = search_loop gp goal_state hf s'"
        using ne Continue by (subst search_loop.simps) simp
      with r show ?thesis by simp
    qed
    qed
  qed
  with inv0 show ?thesis unfolding P_def by blast
qed

lemma adjacent_swapI:
  assumes "br < length s" "bc < length s" "nr < length s" "nc < length s"
    "bc < length (s ! br)" "nc < length (s ! nr)" "s ! br ! bc = 0"
    "(br = nr \<and> (bc = Suc nc \<or> nc = Suc bc)) \<or> (bc = nc \<and> (br = Suc nr \<or> nr = Suc br))"
    "t = swapped s (br, bc) (nr, nc)"
  shows "adjacent_swap s t"
  unfolding adjacent_swap_def using assms
  by (intro bexI[of _ br] bexI[of _ bc] bexI[of _ nr] bexI[of _ nc]) simp_all

text \<open>
  Claim C1. For each of the three heuristics and for every solvable initial
  Configuration (one from which some move sequence leads to the goal Configuration),
  \<^verbatim>\<open>general_search\<close> returns: the result is a node whose state is the goal, whose parent
  chain is a move sequence from the initial state to the goal, and whose \<open>g_cost\<close> is
  the number of moves of that sequence; and no move sequence from the initial state to
  the goal makes fewer moves.
\<close>

theorem general_search_optimal:
  assumes "is_configuration n init" "is_configuration n goal_state"
    "solution_path init goal_state q0"
  shows "\<exists>node ec mq.
     general_search gp0 init goal_state hf = Some (Inr (Some node, ec, mq)) \<and>
     state node = goal_state \<and>
     solution_path init goal_state (reconstruct_path node) \<and>
     int (length (reconstruct_path node)) = g_cost node + 1 \<and>
     (\<forall>q. solution_path init goal_state q \<longrightarrow> g_cost node + 1 \<le> int (length q))"
proof -
  obtain gp where gp: "search_goal_pos gp0 goal_state hf = Inr gp"
    using search_goal_pos_square[OF is_configuration_square[OF assms(2)]] by blast
  let ?h0 = "heuristic_value gp hf goal_state n init"
  have h0: "heuristic_call gp hf init goal_state = Inr ?h0"
    using assms(1,2) gp by (rule heuristic_call_configuration)
  have gs: "general_search gp0 init goal_state hf =
      search_loop gp goal_state hf (initial_search_state init ?h0)"
    by (simp add: general_search_def gp h0)
  have inv: "astar_inv n gp hf goal_state init (initial_search_state init ?h0)"
    using assms(1) by (rule astar_inv_initial)
  have solvable: "reach init (length q0 - 1) goal_state"
    using assms(3) by (rule solution_path_reach)
  from search_loop_optimal[OF assms(1,2) gp solvable inv] obtain node ec mq where
    r: "search_loop gp goal_state hf (initial_search_state init ?h0) =
          Some (Inr (Some node, ec, mq))"
    and g: "state node = goal_state" and p: "path_ok init node"
    and opt: "\<forall>k. reach init k goal_state \<longrightarrow> g_cost node \<le> int k"
    by blast
  have "g_cost node + 1 \<le> int (length q)" if q: "solution_path init goal_state q" for q
  proof -
    from opt solution_path_reach[OF q] have "g_cost node \<le> int (length q - 1)" by blast
    moreover from q have "0 < length q" by (simp add: solution_path_def)
    ultimately show ?thesis by linarith
  qed
  with r g p show ?thesis unfolding gs path_ok_def by blast
qed

theorem general_search_optimal_witness:
  "is_configuration 3 [[1, 2, 3], [4, 0, 5], [7, 8, 6]] \<and>
   is_configuration 3 [[1, 2, 3], [4, 5, 6], [7, 8, 0]] \<and>
   solution_path [[1, 2, 3], [4, 0, 5], [7, 8, 6]] [[1, 2, 3], [4, 5, 6], [7, 8, 0]]
     [[[1, 2, 3], [4, 0, 5], [7, 8, 6]], [[1, 2, 3], [4, 5, 0], [7, 8, 6]],
      [[1, 2, 3], [4, 5, 6], [7, 8, 0]]] \<and>
   (\<exists>node ec mq.
     general_search Map.empty [[1, 2, 3], [4, 0, 5], [7, 8, 6]]
       [[1, 2, 3], [4, 5, 6], [7, 8, 0]] ManhattanDistance = Some (Inr (Some node, ec, mq)) \<and>
     state node = [[1, 2, 3], [4, 5, 6], [7, 8, 0]] \<and> g_cost node = 2)"
proof -
  let ?I = "[[1, 2, 3], [4, 0, 5], [7, 8, 6::int]]"
  let ?G = "[[1, 2, 3], [4, 5, 6], [7, 8, 0::int]]"
  let ?q = "[?I, [[1, 2, 3], [4, 5, 0], [7, 8, 6]], ?G]"
  have ci: "is_configuration 3 ?I"
    by (simp add: is_configuration_def square_def upt_conv_Cons)
  have cg: "is_configuration 3 ?G"
    by (simp add: is_configuration_def square_def upt_conv_Cons)
  have m1: "adjacent_swap ?I [[1, 2, 3], [4, 5, 0], [7, 8, 6]]"
    by (rule adjacent_swapI[of 1 _ 1 1 2]) (simp_all add: swapped_def upt_conv_Cons)
  have m2: "adjacent_swap [[1, 2, 3], [4, 5, 0], [7, 8, 6]] ?G"
    by (rule adjacent_swapI[of 1 _ 2 2 2]) (simp_all add: swapped_def upt_conv_Cons)
  have q: "solution_path ?I ?G ?q" using m1 m2 by (simp add: solution_path_def)
  from general_search_optimal[OF ci cg q, of Map.empty ManhattanDistance]
  obtain node ec mq where
    r: "general_search Map.empty ?I ?G ManhattanDistance = Some (Inr (Some node, ec, mq))"
    and g: "state node = ?G"
    and len: "int (length (reconstruct_path node)) = g_cost node + 1"
    and sp: "solution_path ?I ?G (reconstruct_path node)"
    and opt: "\<forall>q. solution_path ?I ?G q \<longrightarrow> g_cost node + 1 \<le> int (length q)"
    by blast
  have "general_search Map.empty ?I ?G ManhattanDistance =
      Some (Inr (Some (the (fst (projr (the (general_search Map.empty ?I ?G ManhattanDistance))))),
                 2, 5))"
    by code_simp
  moreover have "g_cost (the (fst (projr (the (general_search Map.empty ?I ?G ManhattanDistance))))) = 2"
    by code_simp
  ultimately have "g_cost node = 2" using r by simp
  with ci cg q r g show ?thesis by blast
qed

subsection \<open>Square grids with a blank, whatever their values\<close>

lemma mset_concat_swapped:
  assumes "square n st" "br < n" "bc < n" "nr < n" "nc < n"
  shows "mset (concat (swapped st (br, bc) (nr, nc))) = mset (concat st)"
proof -
  have len: "length st = n" and rows: "\<forall>row\<in>set st. length row = n"
    using assms(1) by (auto simp: square_def)
  let ?a = "st ! nr ! nc" and ?b = "st ! br ! bc"
  let ?s1 = "st[br := (st ! br)[bc := ?a]]"
  let ?i = "br * n + bc" and ?j = "nr * n + nc"
  have rowlen: "length (st ! br) = n" "length (st ! nr) = n"
    using assms by (simp_all add: square_rows)
  have rows1: "\<forall>row\<in>set ?s1. length row = n"
    using rows rowlen by (auto dest!: set_update_subset_insert[THEN subsetD])
  have eq: "swapped st (br, bc) (nr, nc) = ?s1[nr := (?s1 ! nr)[nc := ?b]]"
    using assms len rowlen by (intro swapped_as_updates) simp_all
  have "concat ?s1 = (concat st)[?i := ?a]"
    using rows assms len by (intro concat_update_rows) simp_all
  moreover have "concat (?s1[nr := (?s1 ! nr)[nc := ?b]]) = (concat ?s1)[?j := ?b]"
    using rows1 assms len by (intro concat_update_rows) simp_all
  ultimately have flat: "concat (swapped st (br, bc) (nr, nc)) = (concat st)[?i := ?a, ?j := ?b]"
    using eq by simp
  have ij: "?i < length (concat st)" "?j < length (concat st)"
    using flat_index_less[of br n bc] flat_index_less[of nr n nc] assms len
    by (simp_all add: length_concat_rows[OF rows])
  have ab: "?a = concat st ! ?j" "?b = concat st ! ?i"
    using nth_concat_rows[OF rows] assms len by simp_all
  show ?thesis unfolding flat ab using mset_swap[OF ij(2) ij(1)] by simp
qed

lemma same_cells_swapped:
  assumes "same_cells n init st" "br < n" "bc < n" "nr < n" "nc < n"
  shows "same_cells n init (swapped st (br, bc) (nr, nc))"
  using assms mset_concat_swapped[of n st br bc nr nc]
  by (simp add: same_cells_def square_swapped)

lemma adjacent_swap_same_cells:
  assumes "same_cells n init s" "adjacent_swap s t"
  shows "same_cells n init t"
proof -
  have len: "length s = n" using assms(1) by (simp add: same_cells_def square_def)
  from adjacent_swap_cells[OF assms(2)] obtain br bc nr nc where "br < n" "bc < n" "nr < n" "nc < n"
    "t = swapped s (br, bc) (nr, nc)"
    unfolding len by blast
  then show ?thesis using same_cells_swapped[OF assms(1)] by simp
qed

lemma same_cells_set: "same_cells n init st \<Longrightarrow> set (concat st) = set (concat init)"
  unfolding same_cells_def by (metis mset_eq_setD)

lemma heuristic_call_square:
  assumes "square n st" "square n goal_state" "search_goal_pos gp0 goal_state hf = Inr gp"
    "hf = ManhattanDistance \<longrightarrow> set (concat st) - {0} \<subseteq> set (concat goal_state)"
  shows "\<exists>h. heuristic_call gp hf st goal_state = Inr h"
proof (cases hf)
  case NoHeuristic
  then show ?thesis by (simp add: no_heuristic_def)
next
  case MisplacedTile
  then show ?thesis using misplaced_tile_heuristic_sum[OF assms(1,2)] by simp
next
  case ManhattanDistance
  with assms(3) have "precompute_goal_pos goal_state = Inr gp"
    by (simp add: search_goal_pos_def)
  with precompute_goal_pos_ok[OF assms(2)] have dom: "dom gp = set (concat goal_state)"
    by auto
  have "st ! r ! c \<in> dom gp" if "r < n" "c < n" "st ! r ! c \<noteq> 0" for r c
  proof -
    have "st ! r ! c \<in> set (concat st)"
      unfolding in_concat_square[OF assms(1)] using that by blast
    with that(3) assms(4) ManhattanDistance show ?thesis unfolding dom by blast
  qed
  then have known: "\<forall>r<n. \<forall>c<n. st ! r ! c \<noteq> 0 \<longrightarrow> st ! r ! c \<in> dom gp" by blast
  from manhattan_distance_heuristic_sum[OF assms(1) square_length[OF assms(2)] known]
  show ?thesis using ManhattanDistance by simp
qed

lemma expand_same_cells:
  assumes "same_cells n init (state node)" "0 \<in> set (concat init)" "square n goal_state"
    "search_goal_pos gp0 goal_state hf = Inr gp"
    "hf = ManhattanDistance \<longrightarrow> set (concat init) - {0} \<subseteq> set (concat goal_state)"
  shows "\<exists>succs. expand gp node goal_state hf = Inr succs"
proof -
  let ?st = "state node"
  have sq: "square n ?st" using assms(1) by (simp add: same_cells_def)
  have len: "length ?st = n" using sq by (rule square_length)
  have "0 \<in> set (concat ?st)" using same_cells_set[OF assms(1)] assms(2) by simp
  from find_blank_square[OF sq this] obtain br bc where
    b: "find_blank ?st = Inr (Some (br, bc))" by blast
  from find_blank_Some[OF b] len have bl: "br < n" "bc < n" by simp_all
  have "\<exists>st' h. swap_cells ?st br bc (nat (int br + fst m)) (nat (int bc + fst (snd m)))
                  = Inr st' \<and> heuristic_call gp hf st' goal_state = Inr h"
    if "move_in_bounds n br bc m" for m
  proof -
    let ?nr = "nat (int br + fst m)" and ?nc = "nat (int bc + fst (snd m))"
    have t: "?nr < n" "?nc < n" using move_target_in_range[OF that] by simp_all
    have sw: "swap_cells ?st br bc ?nr ?nc = Inr (swapped ?st (br, bc) (?nr, ?nc))"
      using bl t len square_rows[OF sq] by (intro swap_cells_ok) simp_all
    have sc: "same_cells n init (swapped ?st (br, bc) (?nr, ?nc))"
      using assms(1) bl t by (rule same_cells_swapped)
    then have "square n (swapped ?st (br, bc) (?nr, ?nc))" by (simp add: same_cells_def)
    moreover have "hf = ManhattanDistance \<longrightarrow>
        set (concat (swapped ?st (br, bc) (?nr, ?nc))) - {0} \<subseteq> set (concat goal_state)"
      using assms(5) same_cells_set[OF sc] by simp
    ultimately obtain h where
      "heuristic_call gp hf (swapped ?st (br, bc) (?nr, ?nc)) goal_state = Inr h"
      using heuristic_call_square[OF _ assms(3,4)] by blast
    with sw show ?thesis by blast
  qed
  then have "expand_moves gp node goal_state hf br bc moves [] =
     Inr ([] @ map (child_node gp hf goal_state node br bc) (filter (move_in_bounds n br bc) moves))"
    by (intro expand_moves_ok[OF len]) blast
  then show ?thesis using b by (simp add: expand_def)
qed

lemma finite_same_cells: "finite {st. same_cells n init st}"
proof -
  let ?A = "set (concat init)"
  let ?R = "{row. set row \<subseteq> ?A \<and> length row = n}"
  have "finite ?R" by (intro finite_lists_length_eq) simp
  then have fin: "finite {st. set st \<subseteq> ?R \<and> length st = n}" by (rule finite_lists_length_eq)
  have "{st. same_cells n init st} \<subseteq> {st. set st \<subseteq> ?R \<and> length st = n}"
  proof
    fix st assume "st \<in> {st. same_cells n init st}"
    then have c: "same_cells n init st" by simp
    then have sq: "square n st" by (simp add: same_cells_def)
    have "set row \<subseteq> ?A" if "row \<in> set st" for row
      using same_cells_set[OF c] that by auto
    with sq show "st \<in> {st. set st \<subseteq> ?R \<and> length st = n}"
      by (auto simp: square_def)
  qed
  then show ?thesis using fin by (rule finite_subset)
qed

lemma same_cells_pass:
  assumes fr: "\<forall>m\<in>set (frontier s). same_cells n init (state m)"
    and ex: "\<forall>st\<in>explored s. same_cells n init st"
    and it: "search_iteration gp goal_state hf s = Continue s'"
  shows "(\<forall>m\<in>set (frontier s'). same_cells n init (state m)) \<and>
         (\<forall>st\<in>explored s'. same_cells n init st) \<and>
         (card ({st. same_cells n init st} - explored s') <
            card ({st. same_cells n init st} - explored s) \<or>
          (explored s' = explored s \<and> length (frontier s') < length (frontier s)))"
proof -
  let ?V = "{st. same_cells n init st}"
  from search_iteration_Continue[OF it] obtain node fr' where
    pop: "heappop (frontier s) = Inr (node, fr')"
    and cases: "(state node \<in> explored s \<and> frontier s' = fr' \<and> explored s' = explored s) \<or>
      (state node \<notin> explored s \<and> explored s' = insert (state node) (explored s))"
    by blast
  from heappop_set[OF pop] have fs: "node \<in> set (frontier s)"
    "length (frontier s) = Suc (length fr')" by simp_all
  have cn: "same_cells n init (state node)" using fr fs(1) by simp
  have 1: "same_cells n init (state m)" if "m \<in> set (frontier s')" for m
    using frontier_after_pass[OF it that]
  proof
    assume "m \<in> set (frontier s)"
    with fr show ?thesis by simp
  next
    assume "\<exists>node succs. node \<in> set (frontier s) \<and> state node \<noteq> goal_state \<and>
        state node \<notin> explored s \<and> expand gp node goal_state hf = Inr succs \<and> m \<in> set succs"
    then obtain node' succs where n: "node' \<in> set (frontier s)"
      and e: "expand gp node' goal_state hf = Inr succs" "m \<in> set succs" by blast
    from expand_successor[OF e] have "adjacent_swap (state node') (state m)" by simp
    with fr n show ?thesis by (auto intro: adjacent_swap_same_cells)
  qed
  have 2: "same_cells n init st" if "st \<in> explored s'" for st
    using cases that ex cn by auto
  have 3: "card (?V - explored s') < card (?V - explored s) \<or>
          (explored s' = explored s \<and> length (frontier s') < length (frontier s))"
    using cases
  proof
    assume "state node \<in> explored s \<and> frontier s' = fr' \<and> explored s' = explored s"
    with fs show ?thesis by simp
  next
    assume b: "state node \<notin> explored s \<and> explored s' = insert (state node) (explored s)"
    from cn have "state node \<in> ?V" by simp
    with b have "?V - explored s' \<subset> ?V - explored s" by auto
    moreover have "finite (?V - explored s)" using finite_same_cells by simp
    ultimately show ?thesis by (simp add: psubset_card_mono)
  qed
  from 1 2 3 show ?thesis by blast
qed

lemma search_loop_same_cells:
  assumes z: "0 \<in> set (concat init)" and sg: "square n goal_state"
    and gp: "search_goal_pos gp0 goal_state hf = Inr gp"
    and known: "hf = ManhattanDistance \<longrightarrow> set (concat init) - {0} \<subseteq> set (concat goal_state)"
    and fr0: "\<forall>m\<in>set (frontier s0). same_cells n init (state m)"
    and ex0: "\<forall>st\<in>explored s0. same_cells n init st"
  shows "\<exists>res. search_loop gp goal_state hf s0 = Some (Inr res)"
proof -
  define R where "R = inv_image (less_than <*lex*> less_than)
      (\<lambda>s::search_state.
          (card ({st. same_cells n init st} - explored s), length (frontier s)))"
  have wfR: "wf R" unfolding R_def by (intro wf_inv_image wf_lex_prod wf_less_than)
  define P where "P s \<longleftrightarrow> ((\<forall>m\<in>set (frontier s). same_cells n init (state m)) \<and>
      (\<forall>st\<in>explored s. same_cells n init st) \<longrightarrow>
     (\<exists>res. search_loop gp goal_state hf s = Some (Inr res)))" for s
  have "P s" for s
  proof (rule wf_induct[OF wfR])
    fix s assume IH: "\<forall>s'. (s', s) \<in> R \<longrightarrow> P s'"
    show "P s" unfolding P_def
    proof
      assume inv: "(\<forall>m\<in>set (frontier s). same_cells n init (state m)) \<and>
        (\<forall>st\<in>explored s. same_cells n init st)"
      show "\<exists>res. search_loop gp goal_state hf s = Some (Inr res)"
      proof (cases "frontier s = []")
        case True
        then show ?thesis by (subst search_loop.simps) simp
      next
        case ne: False
        show ?thesis
        proof (cases "search_iteration gp goal_state hf s")
          case (Return x)
          then show ?thesis using ne by (subst search_loop.simps) (cases x, simp)
        next
          case (Raise e)
          from search_iteration_Raise[OF Raise ne] obtain node fr where
            pop: "heappop (frontier s) = Inr (node, fr)"
            and ex: "expand gp node goal_state hf = Inl e" by blast
          from heappop_set[OF pop] inv have "same_cells n init (state node)" by simp
          from expand_same_cells[OF this z sg gp known] ex show ?thesis by simp
        next
          case (Continue s')
          from same_cells_pass[OF conjunct1[OF inv] conjunct2[OF inv] Continue]
          have inv': "(\<forall>m\<in>set (frontier s'). same_cells n init (state m)) \<and>
              (\<forall>st\<in>explored s'. same_cells n init st)"
            and "(s', s) \<in> R" unfolding R_def by auto
          with IH obtain res where "search_loop gp goal_state hf s' = Some (Inr res)"
            unfolding P_def by blast
          moreover have "search_loop gp goal_state hf s = search_loop gp goal_state hf s'"
            using ne Continue by (subst search_loop.simps) simp
          ultimately show ?thesis by (simp del: split_paired_Ex)
        qed
      qed
    qed
  qed
  with fr0 ex0 show ?thesis unfolding P_def by blast
qed

lemma general_search_same_cells:
  assumes "square n init" "0 \<in> set (concat init)" "square n goal_state"
    "hf = ManhattanDistance \<longrightarrow> set (concat init) - {0} \<subseteq> set (concat goal_state)"
  shows "\<exists>res. general_search gp0 init goal_state hf = Some (Inr res)"
proof -
  obtain gp where gp: "search_goal_pos gp0 goal_state hf = Inr gp"
    using search_goal_pos_square[OF assms(3)] by blast
  obtain h0 where h0: "heuristic_call gp hf init goal_state = Inr h0"
    using heuristic_call_square[OF assms(1,3) gp assms(4)] by blast
  have sc: "same_cells n init init" using assms(1) by (simp add: same_cells_def)
  have "\<exists>res. search_loop gp goal_state hf (initial_search_state init h0) = Some (Inr res)"
    using assms(2,3) gp assms(4)
    by (rule search_loop_same_cells)
       (simp_all add: initial_search_state_def heapify_singleton PuzzleNode_init_def sc)
  then show ?thesis by (simp add: general_search_def gp h0)
qed

subsection \<open>The run with the global as state\<close>

lemma heuristic_call_st_eq:
  "heuristic_call_st hf st goal_state g =
     (case heuristic_call (goal_pos_var g) hf st goal_state of
        Inl e \<Rightarrow> Inl e
      | Inr h \<Rightarrow> Inr (h, g))"
  by (cases hf) simp_all

lemma expand_moves_st_eq:
  "expand_moves_st node goal_state hf br bc ms succs g =
     (case expand_moves (goal_pos_var g) node goal_state hf br bc ms succs of
        Inl e \<Rightarrow> Inl e
      | Inr r \<Rightarrow> Inr (r, g))"
proof (induction ms arbitrary: succs)
  case Nil
  then show ?case by simp
next
  case (Cons m ms)
  obtain dr dc a where m: "m = (dr, dc, a)" by (cases m)
  show ?case unfolding m
    by (simp add: Let_def heuristic_call_st_eq Cons.IH split: sum.splits)
qed

lemma expand_st_eq:
  "expand_st node goal_state hf g =
     (case expand (goal_pos_var g) node goal_state hf of
        Inl e \<Rightarrow> Inl e
      | Inr r \<Rightarrow> Inr (r, g))"
  by (simp add: expand_st_def expand_def expand_moves_st_eq
      split: sum.splits option.splits prod.splits)

lemma search_iteration_st_eq:
  "search_iteration_st goal_state hf s g =
     (case search_iteration (goal_pos_var g) goal_state hf s of
        Return r \<Rightarrow> Return_st r g
      | Continue s' \<Rightarrow> Continue_st s' g
      | Raise e \<Rightarrow> Raise_st e)"
  by (simp add: search_iteration_st_def search_iteration_def expand_st_eq Let_def
      split: sum.splits prod.splits)

lemma search_loop_st_refines:
  assumes "search_loop gp goal_state hf s = Some r"
  shows "\<forall>g. goal_pos_var g = gp \<longrightarrow>
           search_loop_st goal_state hf s g =
             Some (case r of Inl e \<Rightarrow> Inl e | Inr res \<Rightarrow> Inr (res, g))"
proof (rule search_loop.raw_induct[where P = "\<lambda>gp goal_state hf s r.
      \<forall>g. goal_pos_var g = gp \<longrightarrow>
           search_loop_st goal_state hf s g =
             Some (case r of Inl e \<Rightarrow> Inl e | Inr res \<Rightarrow> Inr (res, g))",
      OF _ assms])
  fix loop gp goal_state hf s r
  assume IH: "\<And>gp goal_state hf s r. loop gp goal_state hf s = Some r \<Longrightarrow>
      \<forall>g. goal_pos_var g = gp \<longrightarrow>
           search_loop_st goal_state hf s g =
             Some (case r of Inl e \<Rightarrow> Inl e | Inr res \<Rightarrow> Inr (res, g))"
    and body: "(if frontier s = [] then Some (Inr (None, expanded_count s, max_queue_size s))
      else case search_iteration gp goal_state hf s of
             Return r \<Rightarrow> Some (Inr r)
           | Continue s' \<Rightarrow> loop gp goal_state hf s'
           | Raise e \<Rightarrow> Some (Inl e)) = Some r"
  show "\<forall>g. goal_pos_var g = gp \<longrightarrow>
           search_loop_st goal_state hf s g =
             Some (case r of Inl e \<Rightarrow> Inl e | Inr res \<Rightarrow> Inr (res, g))"
  proof (intro allI impI)
    fix g :: module_state assume g: "goal_pos_var g = gp"
    show "search_loop_st goal_state hf s g =
             Some (case r of Inl e \<Rightarrow> Inl e | Inr res \<Rightarrow> Inr (res, g))"
    proof (cases "frontier s = []")
      case True
      with body show ?thesis by (subst search_loop_st.simps) auto
    next
      case ne: False
      show ?thesis
      proof (cases "search_iteration gp goal_state hf s")
        case (Return x)
        with ne body g show ?thesis
          by (subst search_loop_st.simps) (auto simp: search_iteration_st_eq)
      next
        case (Raise e)
        with ne body g show ?thesis
          by (subst search_loop_st.simps) (auto simp: search_iteration_st_eq)
      next
        case (Continue s')
        with ne body have "loop gp goal_state hf s' = Some r" by simp
        from IH[OF this] g have "search_loop_st goal_state hf s' g =
            Some (case r of Inl e \<Rightarrow> Inl e | Inr res \<Rightarrow> Inr (res, g))" by simp
        with ne Continue g show ?thesis
          by (subst search_loop_st.simps) (simp add: search_iteration_st_eq)
      qed
    qed
  qed
qed

lemma general_search_st_manhattan:
  assumes "precompute_goal_pos goal_state = Inr gp"
    "general_search gp0 st goal_state ManhattanDistance = Some (Inr res)"
  shows "general_search_st st goal_state ManhattanDistance g =
           Some (Inr (res, g\<lparr>goal_pos_var := gp, precompute_calls := precompute_calls g + 1\<rparr>))"
proof -
  let ?g1 = "g\<lparr>goal_pos_var := gp, precompute_calls := precompute_calls g + 1\<rparr>"
  have pre: "precompute_goal_pos_st goal_state g = Inr ?g1"
    using assms(1) by (simp add: precompute_goal_pos_st_def precompute_goal_pos_def)
  have sgp: "search_goal_pos gp0 goal_state ManhattanDistance = Inr gp"
    using assms(1) by (simp add: search_goal_pos_def)
  show ?thesis
  proof (cases "manhattan_distance_heuristic gp st goal_state")
    case (Inl e)
    with assms(2) sgp show ?thesis by (simp add: general_search_def)
  next
    case (Inr h)
    with assms(2) sgp have
      "search_loop gp goal_state ManhattanDistance (initial_search_state st h) = Some (Inr res)"
      by (simp add: general_search_def)
    from search_loop_st_refines[OF this] have
      "search_loop_st goal_state ManhattanDistance (initial_search_state st h) ?g1 =
         Some (Inr (res, ?g1))" by simp
    with Inr pre show ?thesis by (simp add: general_search_st_def)
  qed
qed

lemma general_search_configuration_returns:
  assumes "is_configuration n st" "is_configuration n goal_state"
  shows "\<exists>res. general_search gp0 st goal_state hf = Some (Inr res)"
proof (cases "n = 0")
  case True
  with assms have "st = []" "goal_state = []"
    by (simp_all add: is_configuration_def square_def)
  moreover obtain gp where "search_goal_pos gp0 goal_state hf = Inr gp"
    using search_goal_pos_square[OF is_configuration_square[OF assms(2)]] by blast
  moreover obtain h where "heuristic_call gp hf st goal_state = Inr h"
    using heuristic_call_configuration[OF assms calculation(3)] by blast
  ultimately show ?thesis
    by (simp add: general_search_def search_loop_root_is_goal del: split_paired_Ex)
next
  case False
  then have z: "0 \<in> set (concat st)" using is_configuration_has_blank[OF assms(1)] by simp
  have "set (concat st) = set (concat goal_state)"
    unfolding is_configuration_set[OF assms(1)] is_configuration_set[OF assms(2)] ..
  then have "hf = ManhattanDistance \<longrightarrow> set (concat st) - {0} \<subseteq> set (concat goal_state)"
    by blast
  with is_configuration_square[OF assms(1)] z is_configuration_square[OF assms(2)]
  show ?thesis by (rule general_search_same_cells)
qed

lemma manhattan_distance_heuristic_configuration:
  assumes "is_configuration n goal_state" "is_configuration n st"
    "precompute_goal_pos goal_state = Inr gp"
  shows "manhattan_distance_heuristic gp st goal_state =
             Inr (\<Sum>r = 0..<n. \<Sum>c = 0..<n.
                    if st ! r ! c = 0 then 0
                    else \<bar>int r - int (fst (the (gp (st ! r ! c))))\<bar> +
                         \<bar>int c - int (snd (the (gp (st ! r ! c))))\<bar>)"
proof -
  have dom: "dom gp = set (concat goal_state)"
    using precompute_goal_pos_configuration[OF assms(1)] assms(3) by auto
  have known: "\<forall>r<n. \<forall>c<n. st ! r ! c \<noteq> 0 \<longrightarrow> st ! r ! c \<in> dom gp"
    using configuration_tiles_known[OF assms(2) assms(1) dom] .
  have len: "length goal_state = n"
    using assms(1) by (simp add: is_configuration_def square_def)
  have "manhattan_distance_heuristic gp st goal_state = Inr (grid_sum (manhattan_at gp) n st)"
    using is_configuration_square[OF assms(2)] len known
    by (rule manhattan_distance_heuristic_sum)
  moreover have "grid_sum (manhattan_at gp) n st =
      (\<Sum>r = 0..<n. \<Sum>c = 0..<n.
          if st ! r ! c = 0 then 0
          else \<bar>int r - int (fst (the (gp (st ! r ! c))))\<bar> +
               \<bar>int c - int (snd (the (gp (st ! r ! c))))\<bar>)"
    unfolding grid_sum_as_sum
  proof (intro sum.cong refl)
    fix r c assume "r \<in> {0..<n}" "c \<in> {0..<n}"
    with known have "st ! r ! c \<noteq> 0 \<longrightarrow> st ! r ! c \<in> dom gp" by simp
    then show "manhattan_at gp r c (st ! r ! c) =
        (if st ! r ! c = 0 then 0
         else \<bar>int r - int (fst (the (gp (st ! r ! c))))\<bar> +
              \<bar>int c - int (snd (the (gp (st ! r ! c))))\<bar>)"
      by (auto simp: manhattan_at_def)
  qed
  ultimately show ?thesis by simp
qed

text \<open>
  Claim C3, as the code has it. \<^verbatim>\<open>general_search\<close> checks nothing about its
  Configuration and has no explicit rejection. The statement has four parts.
  (1) For every grid, of any shape: once the dictionary and the heuristic of the root
  are computed without an exception, the result is that of the search loop started on
  the grid as given. (2) For an \<open>n\<close> by \<open>n\<close> grid with no blank that is not the goal,
  under the same condition, the first pass raises the \<^verbatim>\<open>TypeError\<close> of \<^verbatim>\<open>expand\<close>
  unpacking the \<open>None\<close> that \<^verbatim>\<open>find_blank\<close> returned. (3) An \<open>n\<close> by \<open>n\<close> grid that has a
  blank, with an \<open>n\<close> by \<open>n\<close> goal and, under the Manhattan heuristic, with each of its
  nonzero values somewhere in the goal, is searched to the end: the run returns a
  node or \<open>None\<close> with the two counters, and raises nothing, whether or not values
  repeat or are missing. (4) A grid of the wrong shape is not rejected either: the
  ragged grid \<open>[[1,2],[0]]\<close> gets into the loop, and the first \<^verbatim>\<open>expand\<close> raises
  \<^verbatim>\<open>IndexError\<close> at the swap. Nothing more is stated about grids that are not square.
\<close>

theorem general_search_unvalidated:
  "(search_goal_pos gp0 goal_state hf = Inr gp \<and>
    heuristic_call gp hf init goal_state = Inr h0 \<longrightarrow>
      general_search gp0 init goal_state hf =
        search_loop gp goal_state hf (initial_search_state init h0)) \<and>
   (search_goal_pos gp0 goal_state hf = Inr gp \<and>
    heuristic_call gp hf init goal_state = Inr h0 \<and>
    square n init \<and> 0 \<notin> set (concat init) \<and> init \<noteq> goal_state \<longrightarrow>
      general_search gp0 init goal_state hf = Some (Inl TypeError)) \<and>
   (square n init \<and> 0 \<in> set (concat init) \<and> square n goal_state \<and>
    (hf = ManhattanDistance \<longrightarrow> set (concat init) - {0} \<subseteq> set (concat goal_state)) \<longrightarrow>
      (\<exists>res. general_search gp0 init goal_state hf = Some (Inr res))) \<and>
   general_search gp0 [[1, 2], [0]] [[1, 2], [3, 0]] NoHeuristic = Some (Inl IndexError)"
proof -
  have g: "general_search gp0 init goal_state hf =
           search_loop gp goal_state hf (initial_search_state init h0)"
    if "search_goal_pos gp0 goal_state hf = Inr gp"
      "heuristic_call gp hf init goal_state = Inr h0"
    using that by (simp add: general_search_def)
  have t: "search_loop gp goal_state hf (initial_search_state init h0) = Some (Inl TypeError)"
    if sq: "square n init" and nz: "0 \<notin> set (concat init)" and ng: "init \<noteq> goal_state"
  proof -
    have "expand gp (PuzzleNode_init init None None 0 h0) goal_state hf = Inl TypeError"
      using find_blank_no_zero[OF sq nz] by (simp add: expand_def PuzzleNode_init_def)
    then have "search_iteration gp goal_state hf (initial_search_state init h0) = Raise TypeError"
      using ng
      by (simp add: search_iteration_def initial_search_state_def heapify_singleton
            heappop_singleton goal_test_def Let_def PuzzleNode_init_def state_to_tuple_def)
    then show ?thesis
      by (subst search_loop.simps) (simp add: initial_search_state_def heapify_singleton)
  qed
  have r: "\<exists>res. general_search gp0 init goal_state hf = Some (Inr res)"
    if "square n init" "0 \<in> set (concat init)" "square n goal_state"
      "hf = ManhattanDistance \<longrightarrow> set (concat init) - {0} \<subseteq> set (concat goal_state)"
    using that by (rule general_search_same_cells)
  have "search_loop gp0 [[1, 2], [3, 0]] NoHeuristic (initial_search_state [[1, 2], [0]] 0) =
      Some (Inl IndexError)"
    by (subst search_loop.simps)
       (simp add: initial_search_state_def heapify_singleton search_iteration_def
          heappop_singleton goal_test_def PuzzleNode_init_def state_to_tuple_def expand_def
          find_blank_def cell_def moves_def swap_cells_def no_heuristic_def Let_def upt_conv_Cons)
  then have i: "general_search gp0 [[1, 2], [0]] [[1, 2], [3, 0]] NoHeuristic =
      Some (Inl IndexError)"
    by (simp add: general_search_def search_goal_pos_def no_heuristic_def)
  from g t r i show ?thesis by (simp del: split_paired_Ex)
qed

theorem general_search_unvalidated_witness:
  "search_goal_pos Map.empty [[1, 2, 3], [4, 5, 6], [7, 8, 0]] NoHeuristic = Inr Map.empty \<and>
   heuristic_call Map.empty NoHeuristic [[1, 2, 3], [4, 5, 6], [7, 8, 8]]
     [[1, 2, 3], [4, 5, 6], [7, 8, 0]] = Inr 0 \<and>
   square 3 [[1, 2, 3], [4, 5, 6], [7, 8, 8]] \<and>
   (0::int) \<notin> set (concat [[1, 2, 3], [4, 5, 6], [7, 8, 8]]) \<and>
   [[1, 2, 3], [4, 5, 6], [7, 8, 8]] \<noteq> [[1, 2, 3], [4, 5, 6], [7, 8, 0::int]] \<and>
   general_search Map.empty [[1, 2, 3], [4, 5, 6], [7, 8, 8]] [[1, 2, 3], [4, 5, 6], [7, 8, 0]]
     NoHeuristic = Some (Inl TypeError) \<and>
   square 3 [[1, 1, 1], [1, 1, 1], [1, 1, 0]] \<and>
   (0::int) \<in> set (concat [[1, 1, 1], [1, 1, 1], [1, 1, 0]]) \<and>
   square 3 [[1, 2, 3], [4, 5, 6], [7, 8, 0]] \<and>
   set (concat [[1, 1, 1], [1, 1, 1], [1, 1, 0]]) - {0::int}
     \<subseteq> set (concat [[1, 2, 3], [4, 5, 6], [7, 8, 0]]) \<and>
   (\<exists>res. general_search Map.empty [[1, 1, 1], [1, 1, 1], [1, 1, 0]]
      [[1, 2, 3], [4, 5, 6], [7, 8, 0]] ManhattanDistance = Some (Inr res))"
proof -
  let ?G = "[[1, 2, 3], [4, 5, 6], [7, 8, 0::int]]"
  let ?B = "[[1, 2, 3], [4, 5, 6], [7, 8, 8::int]]"
  let ?D = "[[1, 1, 1], [1, 1, 1], [1, 1, 0::int]]"
  have p: "search_goal_pos Map.empty ?G NoHeuristic = Inr Map.empty"
    by (simp add: search_goal_pos_def)
  have h: "heuristic_call Map.empty NoHeuristic ?B ?G = Inr 0"
    by (simp add: no_heuristic_def)
  have sq: "square 3 ?B" by (simp add: square_def)
  have nz: "(0::int) \<notin> set (concat ?B)" by simp
  have ng: "?B \<noteq> ?G" by simp
  have sd: "square 3 ?D" by (simp add: square_def)
  have zd: "(0::int) \<in> set (concat ?D)" by simp
  have sg: "square 3 ?G" by (simp add: square_def)
  have sub: "set (concat ?D) - {0::int} \<subseteq> set (concat ?G)" by auto
  have a: "general_search Map.empty ?B ?G NoHeuristic = Some (Inl TypeError)"
    using general_search_unvalidated[of Map.empty ?G NoHeuristic Map.empty ?B 0 3]
      p h sq nz ng by blast
  have b: "\<exists>res. general_search Map.empty ?D ?G ManhattanDistance = Some (Inr res)"
    using general_search_unvalidated[of Map.empty ?G ManhattanDistance Map.empty ?D 0 3]
      sd zd sg sub by blast
  from p h sq nz ng a sd zd sg sub b show ?thesis by blast
qed

text \<open>
  The claim as stated fails: the grid \<open>[[1,1,1],[1,1,1],[1,1,0]]\<close> is not a
  Configuration (the value 1 is there eight times), and \<^verbatim>\<open>general_search\<close> neither
  rejects it nor fails: it goes through the loop, expands nine states and returns the
  ordinary "no solution" result.
\<close>

theorem malformed_configuration_searched_counterexample:
  "\<not> is_configuration 3 [[1, 1, 1], [1, 1, 1], [1, 1, 0]] \<and>
   general_search Map.empty [[1, 1, 1], [1, 1, 1], [1, 1, 0]] [[1, 2, 3], [4, 5, 6], [7, 8, 0]]
     NoHeuristic = Some (Inr (None, 9, 5))"
  by code_simp

text \<open>
  Claim C6. For a goal Configuration, \<^verbatim>\<open>precompute_goal_pos\<close> builds the dictionary
  that sends the value of every goal cell to that cell, and with this dictionary
  \<^verbatim>\<open>manhattan_distance_heuristic(state, goal)\<close> is the sum, over the non-blank tiles of
  a Configuration \<open>st\<close>, of the row distance plus the column distance between the tile's
  cell and its goal cell. \<^verbatim>\<open>general_search\<close> builds the dictionary before the root
  node and runs the loop with it. In the run with the global as state, started from
  any globals \<open>g\<close>, the search ends with the same result, and at its end
  \<^verbatim>\<open>precompute_goal_pos\<close> has been called exactly once more than before the run and
  the global holds the dictionary of the goal: once for the run, however many nodes the
  run has expanded and however many times the heuristic has been called.
\<close>

theorem manhattan_distance_heuristic_spec:
  assumes "is_configuration n goal_state" "is_configuration n st"
  shows "\<exists>gp. precompute_goal_pos goal_state = Inr gp \<and>
           (\<forall>r<n. \<forall>c<n. gp (goal_state ! r ! c) = Some (r, c)) \<and>
           manhattan_distance_heuristic gp st goal_state =
             Inr (\<Sum>r = 0..<n. \<Sum>c = 0..<n.
                    if st ! r ! c = 0 then 0
                    else \<bar>int r - int (fst (the (gp (st ! r ! c))))\<bar> +
                         \<bar>int c - int (snd (the (gp (st ! r ! c))))\<bar>) \<and>
           general_search gp0 st goal_state ManhattanDistance =
             (case manhattan_distance_heuristic gp st goal_state of
                Inl e \<Rightarrow> Some (Inl e)
              | Inr h \<Rightarrow> search_loop gp goal_state ManhattanDistance (initial_search_state st h)) \<and>
           (\<exists>res g'. general_search_st st goal_state ManhattanDistance g = Some (Inr (res, g')) \<and>
              general_search (goal_pos_var g) st goal_state ManhattanDistance = Some (Inr res) \<and>
              goal_pos_var g' = gp \<and>
              precompute_calls g' = precompute_calls g + 1)"
proof -
  obtain gp where gp: "precompute_goal_pos goal_state = Inr gp"
    "\<forall>r<n. \<forall>c<n. gp (goal_state ! r ! c) = Some (r, c)"
    using precompute_goal_pos_configuration[OF assms(1)] by blast
  note val = manhattan_distance_heuristic_configuration[OF assms gp(1)]
  have gs: "general_search gp0 st goal_state ManhattanDistance =
      (case manhattan_distance_heuristic gp st goal_state of
         Inl e \<Rightarrow> Some (Inl e)
       | Inr h \<Rightarrow> search_loop gp goal_state ManhattanDistance (initial_search_state st h))"
    by (simp add: general_search_def search_goal_pos_def gp(1))
  obtain res where res:
    "general_search (goal_pos_var g) st goal_state ManhattanDistance = Some (Inr res)"
    using general_search_configuration_returns[OF assms(2,1)] by blast
  let ?g' = "g\<lparr>goal_pos_var := gp, precompute_calls := precompute_calls g + 1\<rparr>"
  have st: "general_search_st st goal_state ManhattanDistance g = Some (Inr (res, ?g'))"
    using gp(1) res by (rule general_search_st_manhattan)
  have "\<exists>res g'. general_search_st st goal_state ManhattanDistance g = Some (Inr (res, g')) \<and>
      general_search (goal_pos_var g) st goal_state ManhattanDistance = Some (Inr res) \<and>
      goal_pos_var g' = gp \<and> precompute_calls g' = precompute_calls g + 1"
    using st res by (intro exI[of _ res] exI[of _ ?g']) simp
  with gp val gs show ?thesis by (intro exI[of _ gp] conjI)
qed

theorem manhattan_distance_heuristic_spec_witness:
  "is_configuration 3 [[1, 2, 3], [4, 5, 6], [7, 8, 0]] \<and>
   is_configuration 3 [[1, 2, 3], [4, 0, 5], [7, 8, 6]] \<and>
   (\<exists>gp. precompute_goal_pos [[1, 2, 3], [4, 5, 6], [7, 8, 0]] = Inr gp \<and>
      (\<forall>r<3. \<forall>c<3. gp ([[1, 2, 3], [4, 5, 6], [7, 8, 0]] ! r ! c) = Some (r, c)) \<and>
      manhattan_distance_heuristic gp [[1, 2, 3], [4, 0, 5], [7, 8, 6]]
          [[1, 2, 3], [4, 5, 6], [7, 8, 0]] =
        Inr (\<Sum>r = 0..<3. \<Sum>c = 0..<3.
               if [[1, 2, 3], [4, 0, 5], [7, 8, 6]] ! r ! c = (0::int) then 0
               else \<bar>int r - int (fst (the (gp ([[1, 2, 3], [4, 0, 5], [7, 8, 6]] ! r ! c))))\<bar> +
                    \<bar>int c - int (snd (the (gp ([[1, 2, 3], [4, 0, 5], [7, 8, 6]] ! r ! c))))\<bar>) \<and>
      (\<exists>node ec mq g'.
         general_search_st [[1, 2, 3], [4, 0, 5], [7, 8, 6]] [[1, 2, 3], [4, 5, 6], [7, 8, 0]]
           ManhattanDistance \<lparr>goal_pos_var = Map.empty, precompute_calls = 0\<rparr> =
             Some (Inr ((node, ec, mq), g')) \<and>
         ec = 2 \<and> goal_pos_var g' = gp \<and> precompute_calls g' = 1))"
proof -
  let ?G = "[[1, 2, 3], [4, 5, 6], [7, 8, 0::int]]"
  let ?I = "[[1, 2, 3], [4, 0, 5], [7, 8, 6::int]]"
  let ?g0 = "\<lparr>goal_pos_var = Map.empty, precompute_calls = 0\<rparr>"
  let ?run = "general_search Map.empty ?I ?G ManhattanDistance"
  have g: "is_configuration 3 ?G"
    by (simp add: is_configuration_def square_def upt_conv_Cons)
  have s: "is_configuration 3 ?I"
    by (simp add: is_configuration_def square_def upt_conv_Cons)
  have ec: "fst (snd (projr (the ?run))) = 2" by code_simp
  from manhattan_distance_heuristic_spec[OF g s, of Map.empty ?g0]
  obtain gp res g' where
    a: "precompute_goal_pos ?G = Inr gp"
      "\<forall>r<3. \<forall>c<3. gp (?G ! r ! c) = Some (r, c)"
      "manhattan_distance_heuristic gp ?I ?G =
        Inr (\<Sum>r = 0..<3. \<Sum>c = 0..<3.
               if ?I ! r ! c = (0::int) then 0
               else \<bar>int r - int (fst (the (gp (?I ! r ! c))))\<bar> +
                    \<bar>int c - int (snd (the (gp (?I ! r ! c))))\<bar>)"
    and b: "general_search_st ?I ?G ManhattanDistance ?g0 = Some (Inr (res, g'))"
      "?run = Some (Inr res)" "goal_pos_var g' = gp" "precompute_calls g' = 1"
    by auto
  obtain node e mq where res: "res = (node, e, mq)" by (cases res)
  from ec b(2) res have "e = 2" by simp
  with b res have "\<exists>node ec mq g'.
         general_search_st ?I ?G ManhattanDistance ?g0 = Some (Inr ((node, ec, mq), g')) \<and>
         ec = 2 \<and> goal_pos_var g' = gp \<and> precompute_calls g' = 1"
    by blast
  with g s a show ?thesis by blast
qed

end
